theory Spec2Isabelle
  imports Complex_Main "HOL-Library.Monad_Syntax" "HOL-Library.AList"
begin

section \<open>Data model of the VRPTW constraint solver\<close>

text \<open>
  The development follows \<^verbatim>\<open>src/VRPTW3/main.py\<close>, class \<^verbatim>\<open>CSP_VRPTW\<close>.

  A customer is the dictionary the loader builds for one line of a Solomon file. Its
  coordinates are Python floats and every distance and clock value derived from them is
  a float; they are modelled as real numbers (exact arithmetic, no rounding, no NaN or
  infinity). The fields \<^verbatim>\<open>x\<close> and \<^verbatim>\<open>y\<close> are named \<open>xcoord\<close> and
  \<open>ycoord\<close>, the field \<^verbatim>\<open>id\<close> is named \<open>cust_id\<close>.
\<close>

record customer =
  cust_id :: int
  xcoord :: real
  ycoord :: real
  demand :: int
  ready_time :: int
  due_time :: int
  service_time :: int

text \<open>
  The solver object. The three dictionaries the search mutates (\<^verbatim>\<open>domains\<close>,
  \<^verbatim>\<open>routes\<close>, \<^verbatim>\<open>assignments\<close>) are association lists in insertion order, as a
  Python dict is; a lookup of a missing key is \<open>None\<close> (\<^verbatim>\<open>KeyError\<close>).
  The attributes \<^verbatim>\<open>num_customers\<close>, \<^verbatim>\<open>depot\<close>, \<^verbatim>\<open>variables\<close> and
  \<^verbatim>\<open>distance_matrix\<close> are written once by \<^verbatim>\<open>__init__\<close> from the customer list and
  never again, so they are functions of the customer list below. The fleet size is a
  count (\<^verbatim>\<open>range\<close> of a negative number is empty, as of zero).
\<close>

record csp =
  customers :: "customer list"
  vehicle_capacity :: int
  num_vehicles :: nat
  domains :: "(nat \<times> nat list) list"
  routes :: "(nat \<times> nat list) list"
  assignments :: "(nat \<times> nat) list"

definition num_customers :: "csp \<Rightarrow> nat" where
  "num_customers s = length (customers s)"

definition depot :: nat where
  "depot = 0"

definition variables :: "csp \<Rightarrow> nat list" where
  "variables s = [1..<num_customers s]"

text \<open>
  Every function that can raise (\<^verbatim>\<open>IndexError\<close>, \<^verbatim>\<open>KeyError\<close>,
  \<^verbatim>\<open>ValueError\<close>) returns an option: \<open>None\<close> is the exception.
  \<open>index xs i\<close> is \<^verbatim>\<open>xs[i]\<close> for a non-negative \<open>i\<close>.
\<close>

definition index :: "'a list \<Rightarrow> nat \<Rightarrow> 'a option" where
  "index xs i = (if i < length xs then Some (xs ! i) else None)"

subsection \<open>Distance model\<close>

definition euclidean_distance :: "real \<times> real \<Rightarrow> real \<times> real \<Rightarrow> real" where
  "euclidean_distance loc1 loc2 =
     sqrt ((fst loc1 - fst loc2)\<^sup>2 + (snd loc1 - snd loc2)\<^sup>2)"

text \<open>
  \<^verbatim>\<open>_create_distance_matrix\<close> fills a \<open>size \<times> size\<close> table of zeros cell by cell, for
  \<open>i\<close> and \<open>j\<close> in \<^verbatim>\<open>range(size)\<close>; the table it returns is the nested
  comprehension below.
\<close>

definition create_distance_matrix :: "customer list \<Rightarrow> real list list" where
  "create_distance_matrix cs =
     (let locations = map (\<lambda>c. (xcoord c, ycoord c)) cs;
          size = length locations
      in map (\<lambda>i. map (\<lambda>j. euclidean_distance (locations ! i) (locations ! j)) [0..<size])
           [0..<size])"

definition distance_matrix :: "csp \<Rightarrow> real list list" where
  "distance_matrix s = create_distance_matrix (customers s)"

text \<open>\<^verbatim>\<open>self.distance_matrix[i][j]\<close>\<close>

definition dist :: "csp \<Rightarrow> nat \<Rightarrow> nat \<Rightarrow> real option" where
  "dist s i j = do { row \<leftarrow> index (distance_matrix s) i; index row j }"

subsection \<open>Constraint checker\<close>

text \<open>
  \<^verbatim>\<open>_validate_time_windows\<close>: the loop over \<^verbatim>\<open>enumerate(route)\<close>, with the clock
  \<open>time\<close> as its state; \<^verbatim>\<open>return False\<close> leaves the loop at once.
\<close>

fun validate_loop :: "csp \<Rightarrow> nat list \<Rightarrow> (nat \<times> nat) list \<Rightarrow> real \<Rightarrow> bool option" where
  "validate_loop s route [] time = Some True"
| "validate_loop s route ((i, cust) # rest) time = do {
     travel_time \<leftarrow> (if i > 0 then do { prev \<leftarrow> index route (i - 1); dist s prev cust }
                     else dist s depot cust);
     c \<leftarrow> index (customers s) cust;
     let time1 = max (time + travel_time) (real_of_int (ready_time c));
     if time1 > real_of_int (due_time c) then Some False
     else validate_loop s route rest (time1 + real_of_int (service_time c))
   }"

definition validate_time_windows :: "csp \<Rightarrow> nat list \<Rightarrow> bool option" where
  "validate_time_windows s route = validate_loop s route (enumerate 0 route) 0"

text \<open>
  \<^verbatim>\<open>is_consistent(variable, value, route)\<close>. The parameter \<^verbatim>\<open>value\<close> (here \<open>val\<close>)
  is not read by the body. \<open>routed s\<close> is the list
  \<^verbatim>\<open>[cust for r in self.routes.values() for cust in r]\<close>.
\<close>

definition routed :: "csp \<Rightarrow> nat list" where
  "routed s = concat (map snd (routes s))"

definition demands :: "csp \<Rightarrow> nat list \<Rightarrow> int list option" where
  "demands s route = those (map (\<lambda>c. map_option demand (index (customers s) c)) route)"

definition is_consistent :: "csp \<Rightarrow> nat \<Rightarrow> nat \<Rightarrow> nat list \<Rightarrow> bool option" where
  "is_consistent s variable val route =
     (if variable \<in> set (routed s) then Some False
      else do {
        ds \<leftarrow> demands s route;
        cv \<leftarrow> index (customers s) variable;
        let total_demand = sum_list ds + demand cv;
        if total_demand > vehicle_capacity s then Some False
        else validate_time_windows s (route @ [variable])
      })"

text \<open>
  \<open>consistent_on_route s variable v\<close> is the call
  \<^verbatim>\<open>self.is_consistent(variable, v, deepcopy(self.routes[v]))\<close> that the search, forward
  checking and the revise step all make.
\<close>

definition consistent_on_route :: "csp \<Rightarrow> nat \<Rightarrow> nat \<Rightarrow> bool option" where
  "consistent_on_route s variable v = do {
     r \<leftarrow> map_of (routes s) v;
     is_consistent s variable v r
   }"

subsection \<open>Domain store and consistency propagation\<close>

text \<open>A list comprehension with a condition that can raise.\<close>

fun filter_opt :: "('a \<Rightarrow> bool option) \<Rightarrow> 'a list \<Rightarrow> 'a list option" where
  "filter_opt p [] = Some []"
| "filter_opt p (v # vs) = do {
     b \<leftarrow> p v;
     rest \<leftarrow> filter_opt p vs;
     Some (if b then v # rest else rest)
   }"

text \<open>\<^verbatim>\<open>any\<close> over a generator: it stops at the first true element.\<close>

fun any_opt :: "('a \<Rightarrow> bool option) \<Rightarrow> 'a list \<Rightarrow> bool option" where
  "any_opt p [] = Some False"
| "any_opt p (v # vs) = do { b \<leftarrow> p v; if b then Some True else any_opt p vs }"

definition assigned :: "csp \<Rightarrow> nat \<Rightarrow> bool" where
  "assigned s v = (v \<in> fst ` set (assignments s))"

text \<open>
  \<^verbatim>\<open>_forward_checking\<close>: \<open>original_domains\<close> is the deep copy taken on entry; the loop
  runs over \<^verbatim>\<open>self.variables\<close>. The parameters \<^verbatim>\<open>variable\<close> and \<^verbatim>\<open>value\<close> are
  not read by the body.
\<close>

fun forward_checking_loop ::
  "csp \<Rightarrow> (nat \<times> nat list) list \<Rightarrow> nat list \<Rightarrow> (bool \<times> csp) option" where
  "forward_checking_loop s original_domains [] = Some (True, s)"
| "forward_checking_loop s original_domains (neighbor # rest) =
     (if \<not> assigned s neighbor then do {
        d \<leftarrow> map_of (domains s) neighbor;
        d' \<leftarrow> filter_opt (\<lambda>v. consistent_on_route s neighbor v) d;
        let s' = s\<lparr>domains := AList.update neighbor d' (domains s)\<rparr>;
        if d' = [] then Some (False, s'\<lparr>domains := original_domains\<rparr>)
        else forward_checking_loop s' original_domains rest
      }
      else forward_checking_loop s original_domains rest)"

definition forward_checking :: "csp \<Rightarrow> nat \<Rightarrow> nat \<Rightarrow> (bool \<times> csp) option" where
  "forward_checking s variable val = forward_checking_loop s (domains s) (variables s)"

text \<open>
  \<^verbatim>\<open>_revise(x, y)\<close>: the loop runs over a copy of \<^verbatim>\<open>self.domains[x]\<close>. Inside the
  generator given to \<^verbatim>\<open>any\<close> the name \<^verbatim>\<open>value\<close> is the generator's own variable,
  ranging over \<^verbatim>\<open>self.domains[y]\<close>; the loop's \<^verbatim>\<open>value\<close> is only what
  \<^verbatim>\<open>remove\<close> deletes (its first occurrence; \<^verbatim>\<open>ValueError\<close> when absent).
\<close>

fun revise_loop :: "csp \<Rightarrow> nat \<Rightarrow> nat \<Rightarrow> nat list \<Rightarrow> bool \<Rightarrow> (bool \<times> csp) option" where
  "revise_loop s x y [] revised = Some (revised, s)"
| "revise_loop s x y (val # rest) revised = do {
     dy \<leftarrow> map_of (domains s) y;
     supported \<leftarrow> any_opt (\<lambda>v. consistent_on_route s x v) dy;
     if \<not> supported then do {
       dx \<leftarrow> map_of (domains s) x;
       if val \<in> set dx
       then revise_loop (s\<lparr>domains := AList.update x (remove1 val dx) (domains s)\<rparr>) x y rest True
       else None
     }
     else revise_loop s x y rest revised
   }"

definition revise :: "csp \<Rightarrow> nat \<Rightarrow> nat \<Rightarrow> (bool \<times> csp) option" where
  "revise s x y = do { dx \<leftarrow> map_of (domains s) x; revise_loop s x y dx False }"

text \<open>
  \<^verbatim>\<open>_arc_consistency\<close>: the worklist loop. A revision that changed the domain of
  \<open>x\<close> appends the arcs \<open>(z, x)\<close> to the end of the queue.
\<close>

definition initial_queue :: "csp \<Rightarrow> (nat \<times> nat) list" where
  "initial_queue s =
     concat (map (\<lambda>var. map (\<lambda>neighbor. (var, neighbor))
                          (filter (\<lambda>neighbor. var \<noteq> neighbor) (variables s)))
                 (variables s))"

definition domain_total :: "csp \<Rightarrow> nat" where
  "domain_total s = sum_list (map (\<lambda>(k, d). length d) (domains s))"

lemma domain_total_update:
  "map_of ds x = Some dx \<Longrightarrow>
   sum_list (map (\<lambda>(k, d). length d) (AList.update x d' ds)) + length dx =
   sum_list (map (\<lambda>(k, d). length d) ds) + length d'"
  by (induction ds) (auto split: if_splits)

lemma revise_loop_domain_total:
  "revise_loop s x y vals revised = Some (r, s') \<Longrightarrow>
   domain_total s' \<le> domain_total s \<and> (r \<and> \<not> revised \<longrightarrow> domain_total s' < domain_total s)"
proof (induction vals arbitrary: s revised)
  case Nil
  then show ?case by simp
next
  case (Cons val rest)
  from Cons.prems obtain dy supported where dy: "map_of (domains s) y = Some dy"
    and sup: "any_opt (\<lambda>v. consistent_on_route s x v) dy = Some supported"
    by (auto split: Option.bind_splits)
  show ?case
  proof (cases supported)
    case True
    with Cons.prems dy sup have "revise_loop s x y rest revised = Some (r, s')" by simp
    from Cons.IH[OF this] show ?thesis .
  next
    case False
    with Cons.prems dy sup obtain dx where dx: "map_of (domains s) x = Some dx"
      and mem: "val \<in> set dx"
      and rec: "revise_loop (s\<lparr>domains := AList.update x (remove1 val dx) (domains s)\<rparr>) x y rest True
                  = Some (r, s')"
      by (auto split: Option.bind_splits if_splits)
    have "domain_total (s\<lparr>domains := AList.update x (remove1 val dx) (domains s)\<rparr>) + length dx
            = domain_total s + length (remove1 val dx)"
      using domain_total_update[OF dx] by (simp add: domain_total_def)
    moreover have "length (remove1 val dx) < length dx"
      using mem by (simp add: length_remove1) (cases dx; simp)
    ultimately have "domain_total (s\<lparr>domains := AList.update x (remove1 val dx) (domains s)\<rparr>)
                       < domain_total s" by linarith
    with Cons.IH[OF rec] show ?thesis by simp
  qed
qed

lemma revise_domain_total:
  "revise s x y = Some (revised, s') \<Longrightarrow>
   domain_total s' \<le> domain_total s \<and> (revised \<longrightarrow> domain_total s' < domain_total s)"
  by (auto simp: revise_def split: Option.bind_splits dest: revise_loop_domain_total)

function arc_consistency_loop :: "csp \<Rightarrow> (nat \<times> nat) list \<Rightarrow> (bool \<times> csp) option" where
  "arc_consistency_loop s [] = Some (True, s)"
| "arc_consistency_loop s ((x, y) # queue) = do {
     (revised, s') \<leftarrow> revise s x y;
     if revised then do {
       dx \<leftarrow> map_of (domains s') x;
       if dx = [] then Some (False, s')
       else arc_consistency_loop s'
              (queue @ map (\<lambda>z. (z, x)) (filter (\<lambda>z. z \<noteq> x \<and> z \<noteq> y) (variables s')))
     }
     else arc_consistency_loop s' queue
   }"
  by pat_completeness auto
termination
proof (relation "measures [\<lambda>(s, q). domain_total s, \<lambda>(s, q). length q]", goal_cases)
  case 1
  show ?case by simp
next
  case (2 s x y queue p revised s' dx)
  then show ?case using revise_domain_total[of s x y revised s'] by simp
next
  case (3 s x y queue p revised s')
  then show ?case using revise_domain_total[of s x y revised s'] by auto
qed

definition arc_consistency :: "csp \<Rightarrow> (bool \<times> csp) option" where
  "arc_consistency s = arc_consistency_loop s (initial_queue s)"

subsection \<open>Backtracking search\<close>

text \<open>
  \<^verbatim>\<open>min(unassigned, key=...)\<close>: the first element with the least key;
  \<^verbatim>\<open>ValueError\<close> on the empty list.
\<close>

fun min_loop :: "'a \<Rightarrow> nat \<Rightarrow> ('a \<times> nat) list \<Rightarrow> 'a" where
  "min_loop best best_key [] = best"
| "min_loop best best_key ((v, k) # rest) =
     (if k < best_key then min_loop v k rest else min_loop best best_key rest)"

definition min_by_key :: "('a \<times> nat) list \<Rightarrow> 'a option" where
  "min_by_key xs = (case xs of [] \<Rightarrow> None | (v, k) # rest \<Rightarrow> Some (min_loop v k rest))"

text \<open>
  \<^verbatim>\<open>_select_unassigned_variable\<close>: the key of a variable is the length of its domain.
\<close>

definition select_unassigned_variable :: "csp \<Rightarrow> nat option" where
  "select_unassigned_variable s =
     (let unassigned = filter (\<lambda>v. \<not> assigned s v) (variables s) in do {
        ks \<leftarrow> those (map (\<lambda>var. map_option length (map_of (domains s) var)) unassigned);
        min_by_key (zip unassigned ks)
      })"

text \<open>
  \<^verbatim>\<open>_least_constraining_value(variable, value)\<close>: the loop over
  \<^verbatim>\<open>self.variables\<close> with the counter as its state. The parameter \<^verbatim>\<open>variable\<close>
  is not read by the body, so the variable itself is counted when it is unassigned.
\<close>

fun least_constraining_value_loop :: "csp \<Rightarrow> nat \<Rightarrow> nat list \<Rightarrow> nat \<Rightarrow> nat option" where
  "least_constraining_value_loop s val [] count = Some count"
| "least_constraining_value_loop s val (neighbor # rest) count =
     (if \<not> assigned s neighbor then do {
        d \<leftarrow> map_of (domains s) neighbor;
        least_constraining_value_loop s val rest (if val \<in> set d then count + 1 else count)
      }
      else least_constraining_value_loop s val rest count)"

definition least_constraining_value :: "csp \<Rightarrow> nat \<Rightarrow> nat \<Rightarrow> nat option" where
  "least_constraining_value s variable val = least_constraining_value_loop s val (variables s) 0"

text \<open>
  The list \<^verbatim>\<open>sorted(self.domains[variable], key=...)\<close> that the loop of
  \<^verbatim>\<open>_backtrack\<close> iterates: the keys are computed once per element and the sort is
  stable, as \<open>sort_key\<close> is.
\<close>

definition sorted_values :: "csp \<Rightarrow> nat \<Rightarrow> nat list option" where
  "sorted_values s variable = do {
     d \<leftarrow> map_of (domains s) variable;
     ks \<leftarrow> those (map (\<lambda>v. least_constraining_value s variable v) d);
     Some (map fst (sort_key snd (zip d ks)))
   }"

text \<open>
  The two statements of the tentative commitment,
  \<^verbatim>\<open>self.assignments[variable] = value\<close> and
  \<^verbatim>\<open>self.routes[value].append(variable)\<close>, and the two of the undo,
  \<^verbatim>\<open>self.assignments.pop(variable)\<close> (\<^verbatim>\<open>KeyError\<close> when absent) and
  \<^verbatim>\<open>self.routes = previous_routes\<close>.
\<close>

definition commit :: "csp \<Rightarrow> nat \<Rightarrow> nat \<Rightarrow> csp option" where
  "commit s variable val = do {
     let s1 = s\<lparr>assignments := AList.update variable val (assignments s)\<rparr>;
     r \<leftarrow> map_of (routes s1) val;
     Some (s1\<lparr>routes := AList.update val (r @ [variable]) (routes s1)\<rparr>)
   }"

definition undo :: "csp \<Rightarrow> nat \<Rightarrow> (nat \<times> nat list) list \<Rightarrow> csp option" where
  "undo s variable previous_routes =
     (if assigned s variable
      then Some (s\<lparr>assignments := AList.delete variable (assignments s), routes := previous_routes\<rparr>)
      else None)"

text \<open>
  \<^verbatim>\<open>_backtrack\<close>, and its loop over the candidate values as \<open>try_values\<close>. The
  result is the returned routes table (\<open>None\<close> for Python's \<^verbatim>\<open>None\<close>) with the
  solver state the call leaves. \<open>previous_routes\<close> is the deep copy of the routes, taken
  where the source takes it: after the append. The recursion is as deep as there are
  variables; Python's limit on the recursion depth is not modelled.
\<close>

type_synonym solution = "(nat \<times> nat list) list"

function backtrack :: "csp \<Rightarrow> (solution option \<times> csp) option"
  and try_values :: "csp \<Rightarrow> nat \<Rightarrow> nat list \<Rightarrow> (solution option \<times> csp) option" where
  "backtrack s =
     (if length (assignments s) = length (variables s) then Some (Some (routes s), s)
      else do {
        variable \<leftarrow> select_unassigned_variable s;
        vals \<leftarrow> sorted_values s variable;
        try_values s variable vals
      })"
| "try_values s variable [] = Some (None, s)"
| "try_values s variable (val # rest) = do {
     ok \<leftarrow> consistent_on_route s variable val;
     if ok then do {
       s1 \<leftarrow> commit s variable val;
       let previous_routes = routes s1;
       (fc, s2) \<leftarrow> forward_checking s1 variable val;
       (result, s3) \<leftarrow> (if fc then backtrack s2 else Some (None, s2));
       case result of
         Some r \<Rightarrow> Some (Some r, s3)
       | None \<Rightarrow> do {
           s4 \<leftarrow> undo s3 variable previous_routes;
           try_values s4 variable rest
         }
     }
     else try_values s variable rest
   }"
  by pat_completeness auto

text \<open>
  Termination: a recursive call of the search has one unassigned variable less, and the
  loop continues on a shorter list of candidates with no other variable unassigned; the
  second needs that a call of the search forgets no assignment, proved first on the
  domain of the function.
\<close>

lemma forward_checking_loop_Cons:
  "forward_checking_loop s orig (n # rest) =
     (if assigned s n then forward_checking_loop s orig rest
      else case map_of (domains s) n of
        None \<Rightarrow> None
      | Some d \<Rightarrow>
         (case filter_opt (\<lambda>v. consistent_on_route s n v) d of
            None \<Rightarrow> None
          | Some d' \<Rightarrow>
              if d' = [] then Some (False, s\<lparr>domains := orig\<rparr>)
              else forward_checking_loop (s\<lparr>domains := AList.update n d' (domains s)\<rparr>) orig rest))"
  by (simp add: Let_def split: option.splits)

lemma forward_checking_loop_assignments:
  "forward_checking_loop s orig vs = Some (ok, s') \<Longrightarrow> assignments s' = assignments s"
proof (induction vs arbitrary: s)
  case Nil
  then show ?case by simp
next
  case (Cons n rest)
  show ?case
  proof (cases "assigned s n")
    case True
    with Cons.prems have "forward_checking_loop s orig rest = Some (ok, s')"
      by (simp only: forward_checking_loop_Cons if_True)
    from Cons.IH[OF this] show ?thesis .
  next
    case False
    with Cons.prems obtain d d' where
      "map_of (domains s) n = Some d"
      "filter_opt (\<lambda>v. consistent_on_route s n v) d = Some d'"
      and rest: "(if d' = [] then Some (False, s\<lparr>domains := orig\<rparr>)
         else forward_checking_loop (s\<lparr>domains := AList.update n d' (domains s)\<rparr>) orig rest)
         = Some (ok, s')"
      by (simp only: forward_checking_loop_Cons if_False split: option.splits) auto
    show ?thesis
    proof (cases "d' = []")
      case True with rest show ?thesis by auto
    next
      case False
      with rest have "forward_checking_loop (s\<lparr>domains := AList.update n d' (domains s)\<rparr>) orig rest
         = Some (ok, s')" by simp
      from Cons.IH[OF this] show ?thesis by simp
    qed
  qed
qed

lemma forward_checking_assignments:
  "forward_checking s variable val = Some (ok, s') \<Longrightarrow> assignments s' = assignments s"
  unfolding forward_checking_def by (rule forward_checking_loop_assignments)

lemma keys_update: "fst ` set (AList.update k v al) = insert k (fst ` set al)"
  by (simp add: AList.dom_update)

lemma keys_delete: "fst ` set (AList.delete k al) = fst ` set al - {k}"
proof -
  have "set (map fst (AList.delete k al)) = set (map fst al) - {k}"
    by (simp only: AList.delete_keys set_removeAll)
  then show ?thesis by simp
qed

lemma assigned_commit:
  assumes "commit s variable val = Some s1"
  shows "assigned s1 v \<longleftrightarrow> (v = variable \<or> assigned s v)"
proof -
  from assms have "assignments s1 = AList.update variable val (assignments s)"
    by (auto simp: commit_def Let_def split: Option.bind_splits)
  then show ?thesis unfolding assigned_def by (simp only: keys_update insert_iff)
qed

lemma assigned_undo:
  assumes "undo s variable prev = Some s4"
  shows "assigned s4 v \<longleftrightarrow> (v \<noteq> variable \<and> assigned s v)"
proof -
  from assms have "assignments s4 = AList.delete variable (assignments s)"
    by (auto simp: undo_def split: if_splits)
  then show ?thesis unfolding assigned_def by (simp only: keys_delete) blast
qed

lemma min_loop_mem: "min_loop b k xs \<in> insert b (fst ` set xs)"
proof (induction xs arbitrary: b k)
  case Nil
  then show ?case by simp
next
  case (Cons p xs)
  obtain v k' where p: "p = (v, k')" by (cases p)
  show ?case using Cons.IH[of v k'] Cons.IH[of b k] by (auto simp: p)
qed

lemma min_by_key_mem: "min_by_key xs = Some v \<Longrightarrow> v \<in> fst ` set xs"
  using min_loop_mem by (fastforce simp: min_by_key_def split: list.splits)

lemma select_unassigned_variable_mem:
  assumes "select_unassigned_variable s = Some var"
  shows "var \<in> set (variables s) \<and> \<not> assigned s var"
proof -
  from assms obtain ks where
    "min_by_key (zip (filter (\<lambda>v. \<not> assigned s v) (variables s)) ks) = Some var"
    by (auto simp: select_unassigned_variable_def Let_def split: Option.bind_splits)
  from min_by_key_mem[OF this] have "var \<in> set (filter (\<lambda>v. \<not> assigned s v) (variables s))"
    by (auto dest: set_zip_leftD)
  then show ?thesis by simp
qed

lemma customers_commit: "commit s variable val = Some s1 \<Longrightarrow> customers s1 = customers s"
  by (auto simp: commit_def Let_def split: Option.bind_splits)

lemma customers_undo: "undo s variable prev = Some s4 \<Longrightarrow> customers s4 = customers s"
  by (auto simp: undo_def split: if_splits)

lemma variables_cong: "customers s' = customers s \<Longrightarrow> variables s' = variables s"
  by (simp add: variables_def num_customers_def)

lemma forward_checking_loop_customers:
  "forward_checking_loop s orig vs = Some (ok, s') \<Longrightarrow> customers s' = customers s"
proof (induction vs arbitrary: s)
  case Nil
  then show ?case by simp
next
  case (Cons n rest)
  from Cons.prems show ?case
    by (simp only: forward_checking_loop_Cons split: if_splits option.splits)
       (auto dest: Cons.IH)
qed

lemma forward_checking_customers:
  "forward_checking s variable val = Some (ok, s') \<Longrightarrow> customers s' = customers s"
  unfolding forward_checking_def by (rule forward_checking_loop_customers)

lemma backtrack_keeps_assigned:
  shows "backtrack_try_values_dom (Inl s) \<Longrightarrow>
           (\<forall>res s'. backtrack s = Some (res, s') \<longrightarrow>
              customers s' = customers s \<and> (\<forall>v. assigned s v \<longrightarrow> assigned s' v))"
    and "backtrack_try_values_dom (Inr (s, variable, vals)) \<Longrightarrow>
           (\<forall>res s'. try_values s variable vals = Some (res, s') \<longrightarrow>
              customers s' = customers s \<and>
              (\<forall>v. v \<noteq> variable \<and> assigned s v \<longrightarrow> assigned s' v))"
proof (induct rule: backtrack_try_values.pinduct)
  case (1 s)
  show ?case
  proof (intro allI impI)
    fix res s'
    assume run: "backtrack s = Some (res, s')"
    show "customers s' = customers s \<and> (\<forall>v. assigned s v \<longrightarrow> assigned s' v)"
    proof (cases "length (assignments s) = length (variables s)")
      case True
      with run 1(1) show ?thesis by (simp add: backtrack.psimps)
    next
      case False
      with run 1(1) obtain var vals where sel: "select_unassigned_variable s = Some var"
        and sv: "sorted_values s var = Some vals"
        and tv: "try_values s var vals = Some (res, s')"
        by (auto simp: backtrack.psimps split: Option.bind_splits)
      have na: "\<not> assigned s var" using select_unassigned_variable_mem[OF sel] by simp
      from 1(2)[OF False sel sv] tv
      have "customers s' = customers s"
        and "\<forall>v. v \<noteq> var \<and> assigned s v \<longrightarrow> assigned s' v"
        by blast+
      with na show ?thesis by metis
    qed
  qed
next
  case (2 s variable)
  then show ?case by (simp add: try_values.psimps)
next
  case (3 s variable val rest)
  show ?case
  proof (intro allI impI)
    fix res s'
    assume run: "try_values s variable (val # rest) = Some (res, s')"
    from run 3(1) obtain ok where ok: "consistent_on_route s variable val = Some ok"
      by (auto simp: try_values.psimps split: Option.bind_splits)
    show "customers s' = customers s \<and>
          (\<forall>v. v \<noteq> variable \<and> assigned s v \<longrightarrow> assigned s' v)"
    proof (cases ok)
      case False
      with run 3(1) ok have "try_values s variable rest = Some (res, s')"
        by (simp add: try_values.psimps)
      with 3(4)[OF ok False] show ?thesis by blast
    next
      case True
      with run 3(1) ok obtain s1 fc s2 result s3 where
        c: "commit s variable val = Some s1"
        and f: "forward_checking s1 variable val = Some (fc, s2)"
        and b: "(if fc then backtrack s2 else Some (None, s2)) = Some (result, s3)"
        and r: "(case result of Some r \<Rightarrow> Some (Some r, s3)
                 | None \<Rightarrow> undo s3 variable (routes s1) \<bind> (\<lambda>s4. try_values s4 variable rest))
                = Some (res, s')"
        by (auto simp: try_values.psimps Let_def split: Option.bind_splits)
      have c2: "customers s2 = customers s"
        using customers_commit[OF c] forward_checking_customers[OF f] by simp
      have a2: "assigned s v \<Longrightarrow> assigned s2 v" for v
        using assigned_commit[OF c, of v] forward_checking_assignments[OF f]
        by (simp add: assigned_def)
      have s3: "customers s3 = customers s \<and> (\<forall>v. assigned s v \<longrightarrow> assigned s3 v)"
      proof (cases fc)
        case True
        with b have "backtrack s2 = Some (result, s3)" by simp
        with 3(2)[OF ok \<open>ok\<close> c refl f refl True]
        have "customers s3 = customers s2" and "\<forall>v. assigned s2 v \<longrightarrow> assigned s3 v"
          by blast+
        with a2 c2 show ?thesis by simp
      next
        case False
        with b a2 c2 show ?thesis by auto
      qed
      show ?thesis
      proof (cases result)
        case (Some sol)
        with r s3 show ?thesis by auto
      next
        case None
        with r obtain s4 where u: "undo s3 variable (routes s1) = Some s4"
          and t: "try_values s4 variable rest = Some (res, s')"
          by (auto split: Option.bind_splits)
        have c4: "customers s4 = customers s" using customers_undo[OF u] s3 by simp
        have a4: "v \<noteq> variable \<Longrightarrow> assigned s v \<Longrightarrow> assigned s4 v" for v
          using assigned_undo[OF u, of v] s3 by simp
        from 3(3)[OF ok \<open>ok\<close> c refl f refl b refl None u] t
        have "customers s' = customers s4"
          and "\<forall>v. v \<noteq> variable \<and> assigned s4 v \<longrightarrow> assigned s' v"
          by blast+
        with c4 a4 show ?thesis by simp
      qed
    qed
  qed
qed

lemma length_filter_mono:
  "(\<And>x. x \<in> set xs \<Longrightarrow> P x \<Longrightarrow> Q x) \<Longrightarrow> length (filter P xs) \<le> length (filter Q xs)"
  by (induction xs) auto

lemma length_filter_strict:
  assumes "\<And>x. x \<in> set xs \<Longrightarrow> P x \<Longrightarrow> Q x" and "y \<in> set xs" and "Q y" and "\<not> P y"
  shows "length (filter P xs) < length (filter Q xs)"
  using assms
proof (induction xs)
  case Nil
  then show ?case by simp
next
  case (Cons a xs)
  show ?case
  proof (cases "y = a")
    case True
    have "length (filter P xs) \<le> length (filter Q xs)"
      using Cons.prems(1) by (intro length_filter_mono) auto
    with True Cons.prems show ?thesis by simp
  next
    case False
    with Cons.prems have "y \<in> set xs" by simp
    from Cons.IH[OF _ this Cons.prems(3,4)] Cons.prems(1)
    have "length (filter P xs) < length (filter Q xs)" by simp
    with Cons.prems(1)[of a] show ?thesis by auto
  qed
qed

definition unassigned_count :: "csp \<Rightarrow> nat" where
  "unassigned_count s = length (filter (\<lambda>x. \<not> assigned s x) (variables s))"

definition others_unassigned_count :: "csp \<Rightarrow> nat \<Rightarrow> nat" where
  "others_unassigned_count s variable =
     length (filter (\<lambda>x. x \<noteq> variable \<and> \<not> assigned s x) (variables s))"

termination backtrack
proof (relation "inv_image (less_than <*lex*> less_than)
         (\<lambda>a. case a of
                 Inl s \<Rightarrow> (2 * unassigned_count s + 1, 0)
               | Inr (s, variable, vals) \<Rightarrow> (2 * others_unassigned_count s variable + 2, length vals))",
       goal_cases)
  case 1
  show ?case by (intro wf_inv_image wf_lex_prod wf_less_than)
next
  case (2 s variable vals)
  from select_unassigned_variable_mem[OF 2(2)]
  have "others_unassigned_count s variable < unassigned_count s"
    unfolding others_unassigned_count_def unassigned_count_def
    by (intro length_filter_strict[where y = variable]) auto
  then show ?case by simp
next
  case (3 s variable val rest ok s1 prev p fc s2)
  have f: "forward_checking s1 variable val = Some (fc, s2)" using 3(5) unfolding 3(6)[symmetric] .
  have "variables s2 = variables s"
    using customers_commit[OF 3(3)] forward_checking_customers[OF f]
    by (intro variables_cong) simp
  moreover have "assigned s2 v \<longleftrightarrow> (v = variable \<or> assigned s v)" for v
    using assigned_commit[OF 3(3), of v] forward_checking_assignments[OF f]
    by (simp add: assigned_def)
  ultimately have "unassigned_count s2 = others_unassigned_count s variable"
    by (simp add: unassigned_count_def others_unassigned_count_def)
  then show ?case by simp
next
  case (4 s variable val rest ok s1 prev p fc s2 q result s3 s4)
  have f: "forward_checking s1 variable val = Some (fc, s2)" using 4(5) unfolding 4(6)[symmetric] .
  have c2: "customers s2 = customers s"
    using customers_commit[OF 4(3)] forward_checking_customers[OF f] by simp
  have a2: "assigned s v \<Longrightarrow> assigned s2 v" for v
    using assigned_commit[OF 4(3), of v] forward_checking_assignments[OF f]
    by (simp add: assigned_def)
  have s3: "customers s3 = customers s2 \<and> (\<forall>v. assigned s2 v \<longrightarrow> assigned s3 v)"
  proof (cases fc)
    case True
    have q: "(if fc then backtrack s2 else Some (None, s2)) = Some (result, s3)"
      using 4(7) unfolding 4(8)[symmetric] .
    with True have "backtrack s2 = Some (result, s3)" by simp
    moreover from True 4(11) have "backtrack_try_values_dom (Inl s2)" by simp
    ultimately show ?thesis using backtrack_keeps_assigned(1)[of s2] by blast
  next
    case False
    have q: "(if fc then backtrack s2 else Some (None, s2)) = Some (result, s3)"
      using 4(7) unfolding 4(8)[symmetric] .
    with False show ?thesis by simp
  qed
  have a4: "assigned s v \<Longrightarrow> v \<noteq> variable \<Longrightarrow> assigned s4 v" for v
    using assigned_undo[OF 4(10), of v] s3 a2[of v] by simp
  have v4: "variables s4 = variables s"
    using customers_undo[OF 4(10)] s3 c2 by (intro variables_cong) simp
  have "others_unassigned_count s4 variable \<le> others_unassigned_count s variable"
    unfolding others_unassigned_count_def v4
    by (rule length_filter_mono) (use a4 in blast)
  then show ?case by auto
next
  case (5 s variable val rest ok)
  show ?case by simp
qed

declare backtrack.simps [simp del]

text \<open>\<^verbatim>\<open>backtracking_search\<close> only calls \<^verbatim>\<open>_backtrack\<close>.\<close>

definition backtracking_search :: "csp \<Rightarrow> (solution option \<times> csp) option" where
  "backtracking_search s = backtrack s"

subsection \<open>Vehicle-count minimisation loop\<close>

text \<open>
  \<^verbatim>\<open>__init__\<close>: the constructor's dictionaries, before \<^verbatim>\<open>solve\<close> resets them.
\<close>

definition init :: "customer list \<Rightarrow> int \<Rightarrow> nat \<Rightarrow> csp" where
  "init cs capacity n =
     \<lparr>customers = cs, vehicle_capacity = capacity, num_vehicles = n,
      domains = map (\<lambda>v. (v, [0..<n])) [1..<length cs],
      routes = map (\<lambda>v. (v, [])) [0..<n],
      assignments = []\<rparr>"

text \<open>The three assignments at the head of the loop body of \<^verbatim>\<open>solve\<close>.\<close>

definition reset :: "csp \<Rightarrow> nat \<Rightarrow> csp" where
  "reset s vehicle_limit =
     s\<lparr>domains := map (\<lambda>v. (v, [0..<vehicle_limit])) (variables s),
       routes := map (\<lambda>v. (v, [])) [0..<vehicle_limit],
       assignments := []\<rparr>"

text \<open>
  \<^verbatim>\<open>solve\<close>: the loop over \<^verbatim>\<open>range(1, self.num_vehicles + 1)\<close>. The test
  \<^verbatim>\<open>if solution:\<close> is Python truthiness: \<^verbatim>\<open>None\<close> and the empty dictionary are
  false. The \<^verbatim>\<open>print\<close> calls are left out.
\<close>

fun solve_loop :: "csp \<Rightarrow> nat list \<Rightarrow> (solution option \<times> csp) option" where
  "solve_loop s [] = Some (None, s)"
| "solve_loop s (vehicle_limit # rest) = do {
     let s1 = reset s vehicle_limit;
     (consistent, s2) \<leftarrow> arc_consistency s1;
     if consistent then do {
       (solution, s3) \<leftarrow> backtracking_search s2;
       if solution \<noteq> None \<and> solution \<noteq> Some [] then Some (solution, s3)
       else solve_loop s3 rest
     }
     else solve_loop s2 rest
   }"

definition solve :: "csp \<Rightarrow> (solution option \<times> csp) option" where
  "solve s = solve_loop s [1..<num_vehicles s + 1]"

subsection \<open>Reporting\<close>

text \<open>
  \<^verbatim>\<open>calculate_total_distance\<close>: the loop over \<^verbatim>\<open>self.routes.items()\<close>;
  \<open>route_distance\<close> is the body for a non-empty route (\<^verbatim>\<open>route[0]\<close>, the legs
  \<^verbatim>\<open>route[i]\<close> to \<^verbatim>\<open>route[i + 1]\<close>, \<^verbatim>\<open>route[-1]\<close>).
\<close>

definition route_distance :: "csp \<Rightarrow> nat list \<Rightarrow> real option" where
  "route_distance s route = do {
     first \<leftarrow> dist s depot (route ! 0);
     legs \<leftarrow> those (map (\<lambda>i. dist s (route ! i) (route ! (i + 1))) [0..<length route - 1]);
     back \<leftarrow> dist s (last route) depot;
     Some (first + sum_list legs + back)
   }"

fun total_distance_loop :: "csp \<Rightarrow> (nat \<times> nat list) list \<Rightarrow> real \<Rightarrow> real option" where
  "total_distance_loop s [] total_distance = Some total_distance"
| "total_distance_loop s ((vehicle, route) # rest) total_distance =
     (if route = [] then total_distance_loop s rest total_distance
      else do {
        d \<leftarrow> route_distance s route;
        total_distance_loop s rest (total_distance + d)
      })"

definition calculate_total_distance :: "csp \<Rightarrow> real option" where
  "calculate_total_distance s = total_distance_loop s (routes s) 0"

text \<open>\<^verbatim>\<open>str\<close> of a non-negative integer, and \<^verbatim>\<open>sep.join\<close>.\<close>

fun str_nat :: "nat \<Rightarrow> string" where
  "str_nat n = (if n < 10 then [char_of (48 + n)]
                else str_nat (n div 10) @ [char_of (48 + n mod 10)])"

declare str_nat.simps [simp del]

fun join :: "string \<Rightarrow> string list \<Rightarrow> string" where
  "join sep [] = []"
| "join sep [x] = x"
| "join sep (x # y # ys) = x @ sep @ join sep (y # ys)"

text \<open>
  \<^verbatim>\<open>format_solution\<close>: the text of the non-empty routes, their number, and the total
  distance.
\<close>

definition format_route :: "nat \<Rightarrow> nat list \<Rightarrow> string" where
  "format_route vehicle route =
     ''Route '' @ str_nat (vehicle + 1) @ '' : 0 '' @ join '' '' (map str_nat route) @ '' 0''"

definition format_solution :: "csp \<Rightarrow> (string \<times> nat \<times> real) option" where
  "format_solution s =
     (let formatted_routes =
            map (\<lambda>(vehicle, route). format_route vehicle route)
                (filter (\<lambda>(vehicle, route). route \<noteq> []) (routes s))
      in do {
        total_distance \<leftarrow> calculate_total_distance s;
        Some (join [CHR 0x0A] formatted_routes, length formatted_routes, total_distance)
      })"

subsection \<open>Example instances\<close>

text \<open>
  Small instances on which the theorems are run. All customers share the depot's
  location unless said otherwise, so every distance is zero.
\<close>

definition mk_customer :: "int \<Rightarrow> real \<Rightarrow> real \<Rightarrow> int \<Rightarrow> int \<Rightarrow> int \<Rightarrow> int \<Rightarrow> customer" where
  "mk_customer i px py d r due sv =
     \<lparr>cust_id = i, xcoord = px, ycoord = py, demand = d, ready_time = r, due_time = due,
      service_time = sv\<rparr>"

definition the_depot :: customer where
  "the_depot = mk_customer 0 0 0 0 0 1000 0"

section \<open>Properties\<close>

subsection \<open>Distance matrix\<close>

lemma euclidean_distance_commute:
  "euclidean_distance a b = euclidean_distance b a"
  by (simp add: euclidean_distance_def power2_commute)

lemma euclidean_distance_self: "euclidean_distance a a = 0"
  by (simp add: euclidean_distance_def)

lemma create_distance_matrix_nth:
  assumes "i < length cs" and "j < length cs"
  shows "create_distance_matrix cs ! i ! j =
           euclidean_distance (xcoord (cs ! i), ycoord (cs ! i)) (xcoord (cs ! j), ycoord (cs ! j))"
  using assms by (simp add: create_distance_matrix_def Let_def)

lemma dist_in_range:
  assumes "i < length (customers s)" and "j < length (customers s)"
  shows "dist s i j =
           Some (euclidean_distance (xcoord (customers s ! i), ycoord (customers s ! i))
                                    (xcoord (customers s ! j), ycoord (customers s ! j)))"
  using assms
  by (simp add: dist_def distance_matrix_def index_def create_distance_matrix_def Let_def)

text \<open>
  C9. The distance matrix built from the customers' coordinates is square, symmetric and
  has a zero diagonal: for all location indices \<open>i\<close> and \<open>j\<close> of the instance,
  \<open>matrix[i][j] = matrix[j][i]\<close> and \<open>matrix[i][i] = 0\<close>.
\<close>

theorem distance_matrix_symmetric_zero_diagonal:
  assumes "i < length cs" and "j < length cs"
  shows "create_distance_matrix cs ! i ! j = create_distance_matrix cs ! j ! i
         \<and> create_distance_matrix cs ! i ! i = 0
         \<and> length (create_distance_matrix cs) = length cs
         \<and> length (create_distance_matrix cs ! i) = length cs"
proof -
  have sym: "create_distance_matrix cs ! i ! j = create_distance_matrix cs ! j ! i"
    using assms by (simp add: create_distance_matrix_nth euclidean_distance_commute)
  have diag: "create_distance_matrix cs ! i ! i = 0"
    using assms by (simp add: create_distance_matrix_nth euclidean_distance_self)
  have shape: "length (create_distance_matrix cs) = length cs
               \<and> length (create_distance_matrix cs ! i) = length cs"
    using assms by (simp add: create_distance_matrix_def Let_def)
  from sym diag shape show ?thesis by simp
qed

theorem distance_matrix_symmetric_zero_diagonal_witness:
  "create_distance_matrix [the_depot, mk_customer 1 3 4 10 0 100 5] ! 0 ! 1
     = create_distance_matrix [the_depot, mk_customer 1 3 4 10 0 100 5] ! 1 ! 0
   \<and> create_distance_matrix [the_depot, mk_customer 1 3 4 10 0 100 5] ! 0 ! 0 = 0
   \<and> length (create_distance_matrix [the_depot, mk_customer 1 3 4 10 0 100 5]) = 2"
  using distance_matrix_symmetric_zero_diagonal
          [of 0 "[the_depot, mk_customer 1 3 4 10 0 100 5]" 1]
  by simp

lemma variables_reset [simp]: "variables (reset s k) = variables s"
  by (simp add: reset_def variables_def num_customers_def)

subsection \<open>The instance with the depot alone\<close>

text \<open>
  C10. For an instance that holds only the depot and a fleet of at least one vehicle,
  \<^verbatim>\<open>solve\<close> succeeds at vehicle cap 1: it returns the routes table with the single,
  empty route of vehicle 0, the assignment is empty, and \<^verbatim>\<open>format_solution\<close>
  then reports the empty text, zero vehicles used and total distance 0.
\<close>

theorem solve_depot_only:
  assumes "1 \<le> n"
  shows "solve (init [d] capacity n) = Some (Some [(0, [])], reset (init [d] capacity n) 1)
         \<and> assignments (reset (init [d] capacity n) 1) = []
         \<and> routes (reset (init [d] capacity n) 1) = [(0, [])]
         \<and> format_solution (reset (init [d] capacity n) 1) = Some ([], 0, 0)"
proof -
  define s where "s = init [d] capacity n"
  define s1 where "s1 = reset s 1"
  have vars: "variables s1 = []"
    by (simp add: s1_def s_def variables_def num_customers_def init_def reset_def)
  have r1: "routes s1 = [(0, [])]" and a1: "assignments s1 = []"
    by (simp_all add: s1_def reset_def)
  have ac: "arc_consistency s1 = Some (True, s1)"
    by (simp add: arc_consistency_def initial_queue_def vars)
  have bt: "backtracking_search s1 = Some (Some [(0, [])], s1)"
    by (simp add: backtracking_search_def backtrack.simps a1 r1 vars)
  have range: "[1..<num_vehicles s + 1] = 1 # [2..<n + 1]"
    using assms by (simp add: s_def init_def upt_conv_Cons numeral_2_eq_2)
  have "solve s = solve_loop s (1 # [2..<n + 1])"
    by (simp only: solve_def range)
  also have "\<dots> = Some (Some [(0, [])], s1)"
    unfolding solve_loop.simps Let_def s1_def[symmetric] by (simp add: ac bt)
  finally have sol: "solve s = Some (Some [(0, [])], s1)" .
  have fmt: "format_solution s1 = Some ([], 0, 0)"
    by (simp add: format_solution_def calculate_total_distance_def r1)
  from sol a1 r1 fmt show ?thesis unfolding s1_def s_def by simp
qed

theorem solve_depot_only_witness:
  "solve (init [the_depot] 200 25) = Some (Some [(0, [])], reset (init [the_depot] 200 25) 1)
   \<and> format_solution (reset (init [the_depot] 200 25) 1) = Some ([], 0, 0)"
  using solve_depot_only[of 25 the_depot 200] by simp

subsection \<open>Time-window validation\<close>

text \<open>
  The simulation as the specification words it (section 4.2), independent of the code: a
  clock and the previous stop; travel time is added, a clock before the ready time is
  advanced to it, a clock beyond the due time rejects the route, otherwise the service
  time is added. It reads the tables with \<open>!\<close>, so it speaks about routes whose
  customers exist.
\<close>

fun simulate :: "csp \<Rightarrow> nat \<Rightarrow> real \<Rightarrow> nat list \<Rightarrow> bool" where
  "simulate s previous_stop clock [] = True"
| "simulate s previous_stop clock (c # rest) =
     (let arrival = clock + distance_matrix s ! previous_stop ! c;
          start = (if arrival < real_of_int (ready_time (customers s ! c))
                   then real_of_int (ready_time (customers s ! c)) else arrival)
      in if start > real_of_int (due_time (customers s ! c)) then False
         else simulate s c (start + real_of_int (service_time (customers s ! c))) rest)"

definition time_window_feasible :: "csp \<Rightarrow> nat list \<Rightarrow> bool" where
  "time_window_feasible s route = simulate s depot 0 route"

lemma dist_nth:
  "i < length (customers s) \<Longrightarrow> j < length (customers s) \<Longrightarrow>
   dist s i j = Some (distance_matrix s ! i ! j)"
  by (simp add: dist_def distance_matrix_def index_def create_distance_matrix_def Let_def)

lemma validate_loop_simulate:
  assumes "route = pre @ rest" and "\<forall>c\<in>set route. c < length (customers s)"
  shows "validate_loop s route (enumerate (length pre) rest) t
           = Some (simulate s (if pre = [] then depot else last pre) t rest)"
  using assms
proof (induction rest arbitrary: pre t)
  case Nil
  then show ?case by simp
next
  case (Cons c rest)
  have c: "c < length (customers s)" using Cons.prems by simp
  then have d0: "depot < length (customers s)" by (cases "customers s") (simp_all add: depot_def)
  let ?prev = "if pre = [] then depot else last pre"
  have prev: "?prev < length (customers s)"
    using Cons.prems d0 by (cases "pre = []") auto
  have travel: "(if length pre > 0 then do { p \<leftarrow> index route (length pre - 1); dist s p c }
                 else dist s depot c) = Some (distance_matrix s ! ?prev ! c)"
  proof (cases "pre = []")
    case True
    then show ?thesis using dist_nth[OF d0 c] by simp
  next
    case False
    then have "index route (length pre - 1) = Some (last pre)"
      using Cons.prems(1) by (simp add: index_def nth_append last_conv_nth)
    then show ?thesis using False prev dist_nth[of "last pre" s c] c by simp
  qed
  have ih: "validate_loop s route (enumerate (Suc (length pre)) rest) t'
              = Some (simulate s c t' rest)" for t'
    using Cons.IH[of "pre @ [c]" t'] Cons.prems by simp
  show ?case
    by (simp only: enumerate_simps validate_loop.simps travel)
       (simp add: index_def c Let_def ih max_def not_less)
qed

lemma validate_time_windows_feasible:
  assumes "\<forall>c\<in>set route. c < length (customers s)"
  shows "validate_time_windows s route = Some (time_window_feasible s route)"
  using validate_loop_simulate[of route "[]" route s 0] assms
  by (simp add: validate_time_windows_def time_window_feasible_def)

text \<open>
  C6. For every route over customers of the instance, \<^verbatim>\<open>_validate_time_windows\<close>
  returns normally, and returns true exactly when the simulation of section 4.2, started
  at the depot with the clock at 0, never meets a customer whose due time the (possibly
  advanced) clock strictly exceeds. The empty route is feasible.
\<close>

theorem validate_time_windows_simulation:
  assumes "\<forall>c\<in>set route. c < length (customers s)"
  shows "validate_time_windows s route = Some (time_window_feasible s route)
         \<and> validate_time_windows s [] = Some True"
  using validate_time_windows_feasible[OF assms]
  by (simp add: validate_time_windows_def)

text \<open>
  Two customers at distance 5 from the depot, at the same place: the first is ready at
  10, due at 20 and served in 5; the second is due at 14. Visiting the first and then
  the second arrives at 15, too late; the other order is feasible.
\<close>

definition tw_example :: csp where
  "tw_example = init [the_depot, mk_customer 1 3 4 10 10 20 5, mk_customer 2 3 4 10 0 14 1] 100 2"

lemma sqrt_25: "sqrt 25 = 5"
  by (rule real_sqrt_unique) simp_all

lemma tw_example_feasible:
  "\<not> time_window_feasible tw_example [1, 2] \<and> time_window_feasible tw_example [2, 1]"
  by (simp add: time_window_feasible_def tw_example_def init_def the_depot_def mk_customer_def
        depot_def distance_matrix_def create_distance_matrix_def euclidean_distance_def
        Let_def sqrt_25 upt_rec)

theorem validate_time_windows_simulation_witness:
  "validate_time_windows tw_example [1, 2] = Some False
   \<and> validate_time_windows tw_example [2, 1] = Some True"
  using validate_time_windows_simulation[of "[1, 2]" tw_example]
        validate_time_windows_simulation[of "[2, 1]" tw_example]
        tw_example_feasible
  by (simp add: tw_example_def init_def)

subsection \<open>Feasibility and forward checking\<close>

text \<open>
  The feasibility relation of section 4.2 in the specification's words: the candidate is
  in no route, the demands of the route with the candidate appended fit the capacity, and
  that route passes the time-window simulation.
\<close>

definition feasible :: "csp \<Rightarrow> nat \<Rightarrow> nat list \<Rightarrow> bool" where
  "feasible s variable route \<longleftrightarrow>
     variable \<notin> set (routed s)
     \<and> sum_list (map (\<lambda>c. demand (customers s ! c)) (route @ [variable])) \<le> vehicle_capacity s
     \<and> time_window_feasible s (route @ [variable])"

text \<open>
  \<open>route_of\<close> and \<open>domain_of\<close> read the tables where the key exists;
  \<open>feasible_values s n\<close> are the candidate vehicles of \<open>n\<close> on whose current route
  \<open>n\<close> can be appended.
\<close>

definition route_of :: "csp \<Rightarrow> nat \<Rightarrow> nat list" where
  "route_of s v = (case map_of (routes s) v of Some r \<Rightarrow> r | None \<Rightarrow> [])"

definition domain_of :: "csp \<Rightarrow> nat \<Rightarrow> nat list" where
  "domain_of s n = (case map_of (domains s) n of Some d \<Rightarrow> d | None \<Rightarrow> [])"

definition feasible_values :: "csp \<Rightarrow> nat \<Rightarrow> nat list" where
  "feasible_values s n = filter (\<lambda>v. feasible s n (route_of s v)) (domain_of s n)"

text \<open>
  The tables are well formed when every unassigned variable has a domain whose values are
  keys of the routes table, and every routed customer is a customer of the instance.
\<close>

definition well_formed :: "csp \<Rightarrow> bool" where
  "well_formed s \<longleftrightarrow>
     (\<forall>n\<in>set (variables s). \<not> assigned s n \<longrightarrow>
        (case map_of (domains s) n of
           None \<Rightarrow> False
         | Some d \<Rightarrow> \<forall>v\<in>set d. map_of (routes s) v \<noteq> None))
     \<and> (\<forall>c\<in>set (routed s). c < num_customers s)"

lemma those_map_Some:
  "(\<And>x. x \<in> set xs \<Longrightarrow> f x = Some (g x)) \<Longrightarrow> those (map f xs) = Some (map g xs)"
  by (induction xs) auto

lemma demands_in_range:
  assumes "\<forall>c\<in>set route. c < length (customers s)"
  shows "demands s route = Some (map (\<lambda>c. demand (customers s ! c)) route)"
  unfolding demands_def using assms
  by (intro those_map_Some) (simp add: index_def)

lemma is_consistent_feasible:
  assumes "variable < length (customers s)" and "\<forall>c\<in>set route. c < length (customers s)"
  shows "is_consistent s variable val route = Some (feasible s variable route)"
proof -
  have "validate_time_windows s (route @ [variable])
          = Some (time_window_feasible s (route @ [variable]))"
    using assms by (intro validate_time_windows_feasible) simp
  then show ?thesis
    using assms
    by (auto simp: is_consistent_def feasible_def demands_in_range index_def Let_def)
qed

lemma map_of_routed:
  "map_of (routes s) v = Some r \<Longrightarrow> set r \<subseteq> set (routed s)"
  unfolding routed_def by (auto dest!: map_of_SomeD intro: rev_bexI)

lemma consistent_on_route_feasible:
  assumes "variable < length (customers s)" and "\<forall>c\<in>set (routed s). c < length (customers s)"
    and "map_of (routes s) v \<noteq> None"
  shows "consistent_on_route s variable v = Some (feasible s variable (route_of s v))"
proof -
  from assms(3) obtain r where r: "map_of (routes s) v = Some r" by auto
  with assms(2) map_of_routed[OF r] have "\<forall>c\<in>set r. c < length (customers s)" by auto
  with r assms(1) show ?thesis
    by (simp add: consistent_on_route_def route_of_def is_consistent_feasible)
qed

lemma filter_opt_Some:
  "(\<And>x. x \<in> set xs \<Longrightarrow> p x = Some (q x)) \<Longrightarrow> filter_opt p xs = Some (filter q xs)"
  by (induction xs) auto

lemma dist_cong: "customers s' = customers s \<Longrightarrow> dist s' i j = dist s i j"
  by (simp add: dist_def distance_matrix_def)

lemma validate_loop_cong:
  assumes "customers s' = customers s"
  shows "validate_loop s' route es t = validate_loop s route es t"
proof (induction es arbitrary: t)
  case Nil
  show ?case by simp
next
  case (Cons e es)
  obtain i cust where e: "e = (i, cust)" by (cases e)
  show ?case
    unfolding e validate_loop.simps
    by (simp only: Cons.IH dist_cong[OF assms] assms)
qed

lemma is_consistent_cong:
  assumes "customers s' = customers s" and "routes s' = routes s"
    and "vehicle_capacity s' = vehicle_capacity s"
  shows "is_consistent s' variable val route = is_consistent s variable val route"
  unfolding is_consistent_def routed_def demands_def validate_time_windows_def
  by (simp only: assms validate_loop_cong[OF assms(1)])

lemma consistent_on_route_domains [simp]:
  "consistent_on_route (s\<lparr>domains := D\<rparr>) = consistent_on_route s"
  by (intro ext) (simp add: consistent_on_route_def is_consistent_cong[of "s\<lparr>domains := D\<rparr>" s])

lemma assigned_domains [simp]: "assigned (s\<lparr>domains := D\<rparr>) n = assigned s n"
  by (simp add: assigned_def)

text \<open>The domain store after a forward-checking pass over \<open>vs\<close> that did not fail.\<close>

definition checked_domains :: "csp \<Rightarrow> (nat \<times> nat list) list \<Rightarrow> nat list \<Rightarrow> (nat \<times> nat list) list" where
  "checked_domains s D vs =
     foldl (\<lambda>D n. if assigned s n then D else AList.update n (feasible_values s n) D) D vs"

lemma forward_checking_loop_general:
  assumes "distinct vs"
    and "\<forall>n\<in>set vs. \<not> assigned s n \<longrightarrow>
           (\<exists>d. map_of (domains s) n = Some d \<and> map_of D n = Some d
                \<and> (\<forall>v\<in>set d. consistent_on_route s n v = Some (feasible s n (route_of s v))))"
  shows "forward_checking_loop (s\<lparr>domains := D\<rparr>) orig vs =
           (if \<exists>n\<in>set vs. \<not> assigned s n \<and> feasible_values s n = []
            then Some (False, s\<lparr>domains := orig\<rparr>)
            else Some (True, s\<lparr>domains := checked_domains s D vs\<rparr>))"
  using assms
proof (induction vs arbitrary: D)
  case Nil
  then show ?case by (simp add: checked_domains_def)
next
  case (Cons n rest)
  show ?case
  proof (cases "assigned s n")
    case True
    have "forward_checking_loop (s\<lparr>domains := D\<rparr>) orig rest =
           (if \<exists>n\<in>set rest. \<not> assigned s n \<and> feasible_values s n = []
            then Some (False, s\<lparr>domains := orig\<rparr>)
            else Some (True, s\<lparr>domains := checked_domains s D rest\<rparr>))"
      using Cons.prems by (intro Cons.IH) auto
    with True show ?thesis
      by (simp add: forward_checking_loop_Cons checked_domains_def)
  next
    case False
    with Cons.prems(2) obtain d where d: "map_of (domains s) n = Some d" "map_of D n = Some d"
      and c: "\<forall>v\<in>set d. consistent_on_route s n v = Some (feasible s n (route_of s v))"
      by auto
    have fv: "feasible_values s n = filter (\<lambda>v. feasible s n (route_of s v)) d"
      by (simp add: feasible_values_def domain_of_def d)
    have fo: "filter_opt (\<lambda>v. consistent_on_route s n v) d = Some (feasible_values s n)"
      unfolding fv using c by (intro filter_opt_Some) simp
    show ?thesis
    proof (cases "feasible_values s n = []")
      case True
      with False d fo show ?thesis by (simp add: forward_checking_loop_Cons)
    next
      case nonempty: False
      let ?D = "AList.update n (feasible_values s n) D"
      have "forward_checking_loop (s\<lparr>domains := ?D\<rparr>) orig rest =
           (if \<exists>n\<in>set rest. \<not> assigned s n \<and> feasible_values s n = []
            then Some (False, s\<lparr>domains := orig\<rparr>)
            else Some (True, s\<lparr>domains := checked_domains s ?D rest\<rparr>))"
      proof (intro Cons.IH)
        show "distinct rest" using Cons.prems(1) by simp
        show "\<forall>m\<in>set rest. \<not> assigned s m \<longrightarrow>
           (\<exists>d. map_of (domains s) m = Some d \<and> map_of ?D m = Some d
                \<and> (\<forall>v\<in>set d. consistent_on_route s m v = Some (feasible s m (route_of s v))))"
        proof (intro ballI impI)
          fix m assume m: "m \<in> set rest" "\<not> assigned s m"
          then have "m \<noteq> n" using Cons.prems(1) by auto
          then have "map_of ?D m = map_of D m" by (simp add: AList.update_conv')
          with Cons.prems(2) m show "\<exists>d. map_of (domains s) m = Some d \<and> map_of ?D m = Some d
                \<and> (\<forall>v\<in>set d. consistent_on_route s m v = Some (feasible s m (route_of s v)))"
            by auto
        qed
      qed
      with False nonempty d fo show ?thesis
        by (simp add: forward_checking_loop_Cons checked_domains_def)
    qed
  qed
qed


lemma map_of_checked_domains:
  "map_of (checked_domains s D vs) k =
     (if k \<in> set vs \<and> \<not> assigned s k then Some (feasible_values s k) else map_of D k)"
  unfolding checked_domains_def
  by (induction vs arbitrary: D) (auto simp: AList.update_conv')

lemma variables_in_range: "n \<in> set (variables s) \<Longrightarrow> 0 < n \<and> n < length (customers s)"
  by (auto simp: variables_def num_customers_def)

lemma distinct_variables: "distinct (variables s)"
  by (simp add: variables_def)

lemma well_formed_consistent:
  assumes "well_formed s" and "n \<in> set (variables s)" and "\<not> assigned s n"
  shows "\<exists>d. map_of (domains s) n = Some d
             \<and> (\<forall>v\<in>set d. consistent_on_route s n v = Some (feasible s n (route_of s v)))"
proof -
  from assms obtain d where d: "map_of (domains s) n = Some d"
    and r: "\<forall>v\<in>set d. map_of (routes s) v \<noteq> None"
    by (auto simp: well_formed_def split: option.splits)
  have "\<forall>c\<in>set (routed s). c < length (customers s)"
    using assms(1) by (simp add: well_formed_def num_customers_def)
  with r variables_in_range[OF assms(2)] d show ?thesis
    by (auto intro!: consistent_on_route_feasible)
qed

lemma forward_checking_cases:
  assumes "well_formed s"
  shows "if \<exists>n\<in>set (variables s). \<not> assigned s n \<and> feasible_values s n = []
         then forward_checking s variable val = Some (False, s)
         else \<exists>D. forward_checking s variable val = Some (True, s\<lparr>domains := D\<rparr>)
                \<and> (\<forall>n. map_of D n =
                      (if n \<in> set (variables s) \<and> \<not> assigned s n
                       then Some (feasible_values s n) else map_of (domains s) n))"
proof -
  have "forward_checking_loop (s\<lparr>domains := domains s\<rparr>) (domains s) (variables s) =
           (if \<exists>n\<in>set (variables s). \<not> assigned s n \<and> feasible_values s n = []
            then Some (False, s\<lparr>domains := domains s\<rparr>)
            else Some (True, s\<lparr>domains := checked_domains s (domains s) (variables s)\<rparr>))"
    using well_formed_consistent[OF assms]
    by (intro forward_checking_loop_general distinct_variables) blast
  then show ?thesis
    unfolding forward_checking_def
    by (auto simp: map_of_checked_domains
             intro!: exI[of _ "checked_domains s (domains s) (variables s)"])
qed

text \<open>
  C5. On well-formed tables forward checking returns normally and either (b) some
  unassigned variable has no feasible candidate left, and then it reports failure and the
  solver state, the domain store included, is exactly the state before the call; or (a) it
  reports success, only the domain store has changed, the domain of every unassigned
  variable is the list of its previous candidates that are feasible at the end of the
  candidate vehicle's current route, and every other domain is as before.
\<close>

theorem forward_checking_result:
  assumes "well_formed s"
  shows "if \<exists>n\<in>set (variables s). \<not> assigned s n \<and> feasible_values s n = []
         then forward_checking s variable val = Some (False, s)
         else \<exists>D. forward_checking s variable val = Some (True, s\<lparr>domains := D\<rparr>)
                \<and> (\<forall>n. map_of D n =
                      (if n \<in> set (variables s) \<and> \<not> assigned s n
                       then Some (feasible_values s n) else map_of (domains s) n))"
  using forward_checking_cases[OF assms] .

text \<open>
  Two customers of demand 10 and vehicles of capacity 15; \<open>fc_example\<close> is the state
  after customer 1 was committed to vehicle 0, with two vehicles allowed.
\<close>

definition two_tens :: "customer list" where
  "two_tens = [the_depot, mk_customer 1 0 0 10 0 1000 0, mk_customer 2 0 0 10 0 1000 0]"

definition fc_example :: csp where
  "fc_example = (reset (init two_tens 15 2) 2)\<lparr>assignments := [(1, 0)], routes := [(0, [1]), (1, [])]\<rparr>"

lemmas example_defs =
  init_def reset_def two_tens_def the_depot_def mk_customer_def variables_def num_customers_def
  depot_def distance_matrix_def create_distance_matrix_def euclidean_distance_def

lemma fc_example_well_formed: "well_formed fc_example"
  by (simp add: well_formed_def fc_example_def example_defs assigned_def routed_def upt_rec)

lemma fc_example_feasible_values:
  "feasible_values fc_example 1 = [] \<and> feasible_values fc_example 2 = [1]"
  by (simp add: feasible_values_def feasible_def route_of_def domain_of_def routed_def
        time_window_feasible_def fc_example_def example_defs Let_def upt_rec)

lemma fc_example_variables: "variables fc_example = [1, 2]"
  by (simp add: fc_example_def example_defs upt_rec)

lemma fc_example_assigned: "assigned fc_example n \<longleftrightarrow> n = 1"
  by (simp add: fc_example_def example_defs assigned_def)

lemma fc_example_domains: "domains fc_example = [(1, [0, 1]), (2, [0, 1])]"
  by (simp add: fc_example_def example_defs upt_rec)

theorem forward_checking_result_witness:
  "well_formed fc_example
   \<and> (\<exists>D. forward_checking fc_example 1 0 = Some (True, fc_example\<lparr>domains := D\<rparr>)
          \<and> map_of D 1 = Some [0, 1] \<and> map_of D 2 = Some [1])"
proof -
  have "\<not> (\<exists>n\<in>set (variables fc_example). \<not> assigned fc_example n \<and> feasible_values fc_example n = [])"
    using fc_example_feasible_values
    by (simp add: fc_example_variables fc_example_assigned)
  with forward_checking_result[OF fc_example_well_formed, of 1 0]
  obtain D where D: "forward_checking fc_example 1 0 = Some (True, fc_example\<lparr>domains := D\<rparr>)"
    and m: "\<forall>n. map_of D n =
                      (if n \<in> set (variables fc_example) \<and> \<not> assigned fc_example n
                       then Some (feasible_values fc_example n) else map_of (domains fc_example) n)"
    by auto
  have "map_of D 1 = Some [0, 1]"
    using m[rule_format, of 1]
    by (simp add: fc_example_variables fc_example_assigned fc_example_domains)
  moreover have "map_of D 2 = Some [1]"
    using m[rule_format, of 2] fc_example_feasible_values
    by (simp add: fc_example_variables fc_example_assigned)
  ultimately show ?thesis using D fc_example_well_formed by blast
qed

subsection \<open>Value ordering\<close>

text \<open>
  The Least-Constraining-Value count in the specification's words: the number of
  \<^emph>\<open>other\<close> unassigned variables whose domain holds the value. \<open>lcv_before\<close> is
  the order the specification asks for: ascending count, ties by ascending value.
\<close>

definition lcv_count :: "csp \<Rightarrow> nat \<Rightarrow> nat \<Rightarrow> nat" where
  "lcv_count s variable v =
     length (filter (\<lambda>n. n \<noteq> variable \<and> \<not> assigned s n \<and> v \<in> set (domain_of s n)) (variables s))"

definition lcv_before :: "csp \<Rightarrow> nat \<Rightarrow> nat \<Rightarrow> nat \<Rightarrow> bool" where
  "lcv_before s variable a b \<longleftrightarrow>
     lcv_count s variable a < lcv_count s variable b
     \<or> (lcv_count s variable a = lcv_count s variable b \<and> a \<le> b)"

lemma least_constraining_value_loop_count:
  assumes "\<forall>n\<in>set ns. \<not> assigned s n \<longrightarrow> map_of (domains s) n \<noteq> None"
  shows "least_constraining_value_loop s v ns count =
           Some (count + length (filter (\<lambda>n. \<not> assigned s n \<and> v \<in> set (domain_of s n)) ns))"
  using assms
proof (induction ns arbitrary: count)
  case Nil
  show ?case by simp
next
  case (Cons n ns)
  show ?case
  proof (cases "assigned s n")
    case True
    with Cons show ?thesis by simp
  next
    case False
    with Cons.prems obtain d where d: "map_of (domains s) n = Some d" by auto
    with False Cons show ?thesis by (simp add: domain_of_def)
  qed
qed

lemma count_with_self:
  assumes "distinct ns" and "variable \<in> set ns" and "P variable"
  shows "length (filter P ns) = Suc (length (filter (\<lambda>n. n \<noteq> variable \<and> P n) ns))"
  using assms
proof (induction ns)
  case Nil
  then show ?case by simp
next
  case (Cons n ns)
  show ?case
  proof (cases "n = variable")
    case True
    with Cons.prems have "variable \<notin> set ns" by simp
    then have "filter (\<lambda>n. n \<noteq> variable \<and> P n) ns = filter P ns"
      by (intro filter_cong) auto
    with True Cons.prems show ?thesis by simp
  next
    case False
    with Cons show ?thesis by simp
  qed
qed

lemma least_constraining_value_count:
  assumes "\<forall>n\<in>set (variables s). \<not> assigned s n \<longrightarrow> map_of (domains s) n \<noteq> None"
    and "variable \<in> set (variables s)" and "\<not> assigned s variable"
    and "v \<in> set (domain_of s variable)"
  shows "least_constraining_value s variable v = Some (Suc (lcv_count s variable v))"
proof -
  have "length (filter (\<lambda>n. \<not> assigned s n \<and> v \<in> set (domain_of s n)) (variables s))
          = Suc (lcv_count s variable v)"
    unfolding lcv_count_def
    using count_with_self[of "variables s" variable
            "\<lambda>n. \<not> assigned s n \<and> v \<in> set (domain_of s n)"] assms
    by (simp add: distinct_variables)
  then show ?thesis
    unfolding least_constraining_value_def
    using least_constraining_value_loop_count[OF assms(1), of v 0] by simp
qed

lemma map_fst_insort_key_snd:
  assumes "\<forall>p\<in>set ps. snd p = g (fst p)"
  shows "map fst (insort_key snd (v, g v) ps) = insort_key g v (map fst ps)"
  using assms by (induction ps) auto

lemma set_insort_key_snd:
  "\<forall>p\<in>set ps. snd p = g (fst p) \<Longrightarrow> \<forall>p\<in>set (insort_key snd (v, g v) ps). snd p = g (fst p)"
  by (auto simp: set_insort_key)

lemma sort_key_zip_keys:
  "map fst (sort_key snd (zip d (map g d))) = sort_key g d
   \<and> (\<forall>p\<in>set (sort_key snd (zip d (map g d))). snd p = g (fst p))"
proof (induction d)
  case Nil
  show ?case by simp
next
  case (Cons v d)
  then show ?case
    using map_fst_insort_key_snd[of "sort_key snd (zip d (map g d))" g v]
    by (auto simp: set_insort_key)
qed

lemma insort_key_sorted_wrt:
  assumes "sorted_wrt (\<lambda>a b. g a < g b \<or> (g a = g b \<and> a \<le> b)) xs"
    and "\<forall>x\<in>set xs. (v::nat) \<le> x"
  shows "sorted_wrt (\<lambda>a b. (g a :: nat) < g b \<or> (g a = g b \<and> a \<le> b)) (insort_key g v xs)"
  using assms
proof (induction xs)
  case Nil
  show ?case by simp
next
  case (Cons y ys)
  show ?case
  proof (cases "g v \<le> g y")
    case True
    with Cons.prems show ?thesis by (auto simp: le_less)
  next
    case False
    with Cons show ?thesis by (auto simp: set_insort_key)
  qed
qed

lemma sort_key_sorted_wrt:
  assumes "sorted (d :: nat list)"
  shows "sorted_wrt (\<lambda>a b. (g a :: nat) < g b \<or> (g a = g b \<and> a \<le> b)) (sort_key g d)"
  using assms
proof (induction d)
  case Nil
  show ?case by simp
next
  case (Cons v d)
  then show ?case by (auto intro!: insort_key_sorted_wrt)
qed


lemma insort_key_Suc: "insort_key (\<lambda>v. Suc (g v)) x xs = insort_key g x xs"
  by (induction xs) auto

lemma sort_key_Suc: "sort_key (\<lambda>v. Suc (g v)) xs = sort_key g xs"
  by (induction xs) (auto simp: insort_key_Suc)

lemma sorted_values_sort_key:
  assumes "\<forall>n\<in>set (variables s). \<not> assigned s n \<longrightarrow> map_of (domains s) n \<noteq> None"
    and "variable \<in> set (variables s)" and "\<not> assigned s variable"
  shows "sorted_values s variable = Some (sort_key (lcv_count s variable) (domain_of s variable))"
proof -
  from assms obtain d where d: "map_of (domains s) variable = Some d" by auto
  then have dd: "domain_of s variable = d" by (simp add: domain_of_def)
  have "those (map (\<lambda>v. least_constraining_value s variable v) d)
          = Some (map (\<lambda>v. Suc (lcv_count s variable v)) d)"
    using least_constraining_value_count[OF assms] dd by (intro those_map_Some) simp
  then show ?thesis
    using sort_key_zip_keys[of d "\<lambda>v. Suc (lcv_count s variable v)"]
    by (simp add: sorted_values_def d dd sort_key_Suc)
qed

subsection \<open>Arc consistency before the search\<close>

text \<open>
  A customer is feasible on its own when its demand fits the capacity and, travelling
  directly from the depot and waiting for the ready time if need be, service starts by
  its due time.
\<close>

definition feasible_alone :: "csp \<Rightarrow> nat \<Rightarrow> bool" where
  "feasible_alone s x \<longleftrightarrow>
     demand (customers s ! x) \<le> vehicle_capacity s
     \<and> max (distance_matrix s ! depot ! x) (real_of_int (ready_time (customers s ! x)))
         \<le> real_of_int (due_time (customers s ! x))"

lemma customers_reset [simp]: "customers (reset s k) = customers s"
  by (simp add: reset_def)

lemma routed_reset [simp]: "routed (reset s k) = []"
  by (simp add: routed_def reset_def)

lemma map_of_routes_reset:
  "map_of (routes (reset s k)) v = (if v < k then Some [] else None)"
proof -
  have "map_of (map (\<lambda>v. (v, [])) vs) v = (if v \<in> set vs then Some ([]::nat list) else None)" for vs
    by (induction vs) auto
  then show ?thesis by (simp add: reset_def)
qed

lemma map_of_domains_reset:
  "map_of (domains (reset s k)) x = (if x \<in> set (variables s) then Some [0..<k] else None)"
proof -
  have "map_of (map (\<lambda>v. (v, d)) vs) x = (if x \<in> set vs then Some d else None)" for vs and d :: "nat list"
    by (induction vs) auto
  then show ?thesis by (simp add: reset_def)
qed

lemma feasible_reset:
  "feasible (reset s k) x [] \<longleftrightarrow> feasible_alone s x"
proof -
  have "vehicle_capacity (reset s k) = vehicle_capacity s"
    and "distance_matrix (reset s k) = distance_matrix s"
    by (simp_all add: reset_def distance_matrix_def)
  then show ?thesis
    by (auto simp: feasible_def feasible_alone_def time_window_feasible_def Let_def
          max_def not_less)
qed

lemma consistent_on_route_reset:
  assumes "x \<in> set (variables s)" and "v < k"
  shows "consistent_on_route (reset s k) x v = Some (feasible_alone s x)"
proof -
  have "consistent_on_route (reset s k) x v
          = Some (feasible (reset s k) x (route_of (reset s k) v))"
    using assms variables_in_range[OF assms(1)]
    by (intro consistent_on_route_feasible) (simp_all add: map_of_routes_reset)
  then show ?thesis using assms(2)
    by (simp add: route_of_def map_of_routes_reset feasible_reset)
qed

lemma consistent_on_route_reset_domains:
  assumes "x \<in> set (variables s)" and "v < k"
  shows "consistent_on_route ((reset s k)\<lparr>domains := D\<rparr>) x v = Some (feasible_alone s x)"
  using consistent_on_route_reset[OF assms] by simp

lemma revise_loop_supported:
  assumes "map_of (domains t) y = Some (v # dy)" and "consistent_on_route t x v = Some True"
  shows "revise_loop t x y vals revised = Some (revised, t)"
  using assms by (induction vals) simp_all

lemma revise_feasible:
  assumes "1 \<le> k" and "x \<in> set (variables s)" and "y \<in> set (variables s)"
    and "feasible_alone s x"
  shows "revise (reset s k) x y = Some (False, reset s k)"
proof -
  have "[0..<k] = 0 # [1..<k]" using assms(1) by (simp add: upt_conv_Cons)
  then have "map_of (domains (reset s k)) y = Some (0 # [1..<k])"
    using assms(3) by (simp add: map_of_domains_reset)
  moreover have "consistent_on_route (reset s k) x 0 = Some True"
    using consistent_on_route_reset[OF assms(2), of 0 k] assms(1,4) by simp
  ultimately show ?thesis
    using assms(2) by (simp add: revise_def map_of_domains_reset revise_loop_supported)
qed

lemma any_opt_all_False:
  "(\<And>v. v \<in> set xs \<Longrightarrow> p v = Some False) \<Longrightarrow> any_opt p xs = Some False"
  by (induction xs) simp_all

lemma revise_loop_unsupported:
  assumes "x \<noteq> y" and "map_of D x = Some vals" and "map_of D y = Some dy"
    and "\<And>D' v. v \<in> set dy \<Longrightarrow> consistent_on_route (t\<lparr>domains := D'\<rparr>) x v = Some False"
  shows "revise_loop (t\<lparr>domains := D\<rparr>) x y vals revised =
           Some (revised \<or> vals \<noteq> [],
                 t\<lparr>domains := (if vals = [] then D else AList.update x [] D)\<rparr>)"
  using assms(2,3)
proof (induction vals arbitrary: D revised)
  case Nil
  show ?case by simp
next
  case (Cons val rest)
  let ?D = "AList.update x rest D"
  have unsup: "any_opt (\<lambda>v. consistent_on_route (t\<lparr>domains := D\<rparr>) x v) dy = Some False"
    using assms(4) by (intro any_opt_all_False)
  have "revise_loop (t\<lparr>domains := ?D\<rparr>) x y rest True =
           Some (True \<or> rest \<noteq> [],
                 t\<lparr>domains := (if rest = [] then ?D else AList.update x [] ?D)\<rparr>)"
    using Cons.prems assms(1) by (intro Cons.IH) (simp_all add: AList.update_conv')
  moreover have "(if rest = [] then ?D else AList.update x [] ?D) = AList.update x [] D"
    by simp
  ultimately show ?case
    using Cons.prems unsup by simp
qed

lemma revise_infeasible:
  assumes "1 \<le> k" and "x \<in> set (variables s)" and "y \<in> set (variables s)" and "x \<noteq> y"
    and "\<not> feasible_alone s x"
  shows "revise (reset s k) x y =
           Some (True, (reset s k)\<lparr>domains := AList.update x [] (domains (reset s k))\<rparr>)"
proof -
  have "revise_loop ((reset s k)\<lparr>domains := domains (reset s k)\<rparr>) x y [0..<k] False =
           Some (False \<or> [0..<k] \<noteq> [],
                 (reset s k)\<lparr>domains := (if [0..<k] = [] then domains (reset s k)
                                         else AList.update x [] (domains (reset s k)))\<rparr>)"
    using assms consistent_on_route_reset_domains[OF assms(2), of _ k]
    by (intro revise_loop_unsupported[where dy = "[0..<k]"])
       (simp_all add: map_of_domains_reset)
  then show ?thesis
    using assms(1,2) by (simp add: revise_def map_of_domains_reset)
qed


lemma arc_consistency_loop_reset:
  assumes "1 \<le> k"
    and "\<forall>(x, y)\<in>set q. x \<in> set (variables s) \<and> y \<in> set (variables s) \<and> x \<noteq> y"
  shows "arc_consistency_loop (reset s k) q =
           (case find (\<lambda>(x, y). \<not> feasible_alone s x) q of
              None \<Rightarrow> Some (True, reset s k)
            | Some (x, y) \<Rightarrow>
                Some (False, (reset s k)\<lparr>domains := AList.update x [] (domains (reset s k))\<rparr>))"
  using assms(2)
proof (induction q)
  case Nil
  show ?case by simp
next
  case (Cons p q)
  obtain x y where p: "p = (x, y)" by (cases p)
  with Cons.prems have xy: "x \<in> set (variables s)" "y \<in> set (variables s)" "x \<noteq> y"
    by auto
  have ih: "arc_consistency_loop (reset s k) q =
           (case find (\<lambda>(x, y). \<not> feasible_alone s x) q of
              None \<Rightarrow> Some (True, reset s k)
            | Some (x, y) \<Rightarrow>
                Some (False, (reset s k)\<lparr>domains := AList.update x [] (domains (reset s k))\<rparr>))"
    using Cons.prems by (intro Cons.IH) simp
  show ?case
  proof (cases "feasible_alone s x")
    case True
    with revise_feasible[OF assms(1) xy(1,2)] ih show ?thesis by (simp add: p)
  next
    case False
    with revise_infeasible[OF assms(1) xy] show ?thesis
      by (simp add: p AList.update_conv')
  qed
qed

lemma set_initial_queue:
  "set (initial_queue s) = {(x, y). x \<in> set (variables s) \<and> y \<in> set (variables s) \<and> x \<noteq> y}"
  by (auto simp: initial_queue_def)

lemma initial_queue_reset [simp]: "initial_queue (reset s k) = initial_queue s"
  by (simp add: initial_queue_def)

lemma other_variable:
  assumes "2 \<le> length (variables s)" and "x \<in> set (variables s)"
  shows "\<exists>y\<in>set (variables s). y \<noteq> x"
proof (rule ccontr)
  assume "\<not> (\<exists>y\<in>set (variables s). y \<noteq> x)"
  then have "set (variables s) \<subseteq> {x}" by auto
  then have "card (set (variables s)) \<le> card {x}" by (intro card_mono) simp_all
  then have "card (set (variables s)) \<le> 1" by simp
  then show False using assms(1) distinct_card[OF distinct_variables, of s] by simp
qed

lemma two_variables:
  assumes "x \<in> set (variables s)" and "y \<in> set (variables s)" and "x \<noteq> y"
  shows "2 \<le> length (variables s)"
proof -
  have "card {x, y} \<le> card (set (variables s))" using assms by (intro card_mono) auto
  then show ?thesis using assms(3) distinct_card[OF distinct_variables, of s] by simp
qed

lemma find_Some_mem: "List.find P xs = Some x \<Longrightarrow> x \<in> set xs \<and> P x"
  by (induction xs) (auto split: if_splits)

lemma arc_consistency_reset_cases:
  assumes "1 \<le> k"
  shows "(\<forall>x\<in>set (variables s). map_of (domains (reset s k)) x = Some [0..<k])
         \<and> (if 2 \<le> length (variables s) \<and> (\<exists>x\<in>set (variables s). \<not> feasible_alone s x)
            then \<exists>x\<in>set (variables s). \<not> feasible_alone s x
                   \<and> arc_consistency (reset s k) =
                       Some (False, (reset s k)\<lparr>domains := AList.update x [] (domains (reset s k))\<rparr>)
            else arc_consistency (reset s k) = Some (True, reset s k))"
proof -
  let ?q = "initial_queue s"
  have q: "\<forall>(x, y)\<in>set ?q. x \<in> set (variables s) \<and> y \<in> set (variables s) \<and> x \<noteq> y"
    by (simp add: set_initial_queue)
  note loop = arc_consistency_loop_reset[OF assms q]
  show ?thesis
  proof (cases "find (\<lambda>(x, y). \<not> feasible_alone s x) ?q")
    case None
    then have all: "\<forall>(x, y)\<in>set ?q. feasible_alone s x"
      by (auto simp: find_None_iff)
    have "\<not> (2 \<le> length (variables s) \<and> (\<exists>x\<in>set (variables s). \<not> feasible_alone s x))"
    proof
      assume a: "2 \<le> length (variables s) \<and> (\<exists>x\<in>set (variables s). \<not> feasible_alone s x)"
      then obtain x where x: "x \<in> set (variables s)" "\<not> feasible_alone s x" by auto
      with a other_variable[of s x] obtain y where "y \<in> set (variables s)" "y \<noteq> x" by auto
      with x have "(x, y) \<in> set ?q" by (simp add: set_initial_queue)
      with all x(2) show False by auto
    qed
    with None loop show ?thesis
      by (simp add: arc_consistency_def map_of_domains_reset)
  next
    case (Some p)
    obtain x y where p: "p = (x, y)" by (cases p)
    from find_Some_mem[OF Some] have "p \<in> set ?q" and "\<not> feasible_alone s (fst p)"
      by (auto simp: p)
    then have x: "x \<in> set (variables s)" "y \<in> set (variables s)" "x \<noteq> y" "\<not> feasible_alone s x"
      by (auto simp: p set_initial_queue)
    from two_variables[OF x(1,2,3)] x Some loop show ?thesis
      by (auto simp: arc_consistency_def map_of_domains_reset p)
  qed
qed

text \<open>
  C7, as the code has it. \<^verbatim>\<open>solve\<close> runs the arc-consistency pass on freshly reset
  tables, where every route is empty and every domain is \<open>[0..<k]\<close>. For every
  instance and every cap \<open>k \<ge> 1\<close> the pass returns normally. It returns false exactly
  when the instance has at least two non-depot customers and one of them is infeasible on
  its own; the domain of that customer is then empty. Otherwise it returns true and
  leaves the state, every domain included, as it was. With fewer than two variables the
  worklist of arcs is empty and nothing is tested.
\<close>

theorem arc_consistency_on_reset:
  assumes "1 \<le> k"
  shows "(\<forall>x\<in>set (variables s). map_of (domains (reset s k)) x = Some [0..<k])
         \<and> (if 2 \<le> length (variables s) \<and> (\<exists>x\<in>set (variables s). \<not> feasible_alone s x)
            then \<exists>x\<in>set (variables s). \<not> feasible_alone s x
                   \<and> arc_consistency (reset s k) =
                       Some (False, (reset s k)\<lparr>domains := AList.update x [] (domains (reset s k))\<rparr>)
            else arc_consistency (reset s k) = Some (True, reset s k))"
  using arc_consistency_reset_cases[OF assms] .

text \<open>
  One customer of demand 20 and a capacity of 15: the customer is infeasible on its own,
  and the pass returns true.
\<close>

definition one_heavy :: csp where
  "one_heavy = init [the_depot, mk_customer 1 0 0 20 0 1000 0] 15 1"

theorem arc_consistency_single_customer_counterexample:
  "\<not> feasible_alone one_heavy 1
   \<and> arc_consistency (reset one_heavy 1) = Some (True, reset one_heavy 1)"
  by (simp add: feasible_alone_def arc_consistency_def initial_queue_def one_heavy_def
        example_defs)

lemma two_tens_variables: "variables (init two_tens c n) = [1, 2]"
  by (simp add: example_defs upt_rec)

theorem arc_consistency_on_reset_witness:
  "(\<exists>x. \<not> feasible_alone (init two_tens 5 2) x
        \<and> arc_consistency (reset (init two_tens 5 2) 2) =
            Some (False, (reset (init two_tens 5 2) 2)
                      \<lparr>domains := AList.update x [] (domains (reset (init two_tens 5 2) 2))\<rparr>))
   \<and> arc_consistency (reset (init two_tens 15 2) 2) = Some (True, reset (init two_tens 15 2) 2)"
proof -
  have heavy: "\<not> feasible_alone (init two_tens 5 2) 1"
    by (simp add: feasible_alone_def example_defs)
  have light: "\<forall>x\<in>set (variables (init two_tens 15 2)). feasible_alone (init two_tens 15 2) x"
    unfolding two_tens_variables by (simp add: feasible_alone_def example_defs)
  have "\<exists>x\<in>set (variables (init two_tens 5 2)). \<not> feasible_alone (init two_tens 5 2) x"
    unfolding two_tens_variables using heavy by simp
  with arc_consistency_on_reset[of 2 "init two_tens 5 2"]
  have "\<exists>x. \<not> feasible_alone (init two_tens 5 2) x
        \<and> arc_consistency (reset (init two_tens 5 2) 2) =
            Some (False, (reset (init two_tens 5 2) 2)
                      \<lparr>domains := AList.update x [] (domains (reset (init two_tens 5 2) 2))\<rparr>)"
    by (auto simp: two_tens_variables)
  moreover from light arc_consistency_on_reset[of 2 "init two_tens 15 2"]
  have "arc_consistency (reset (init two_tens 15 2) 2) = Some (True, reset (init two_tens 15 2) 2)"
    by auto
  ultimately show ?thesis by simp
qed

subsection \<open>The search invariant\<close>

text \<open>
  Two states belong to the same instance when the attributes the solver never writes
  agree.
\<close>

definition same_instance :: "csp \<Rightarrow> csp \<Rightarrow> bool" where
  "same_instance s t \<longleftrightarrow>
     customers t = customers s \<and> vehicle_capacity t = vehicle_capacity s
     \<and> num_vehicles t = num_vehicles s"

text \<open>
  The Route invariant of the specification (section 3): every non-depot customer is in
  exactly one route, every route passes the time-window simulation, and the demands of a
  route are within the capacity. For the empty route of an unused vehicle the last part
  says \<open>0 \<le> capacity\<close>, which the code never tests; it is stated for the routes that
  serve a customer, and for all routes when the capacity is not negative.
\<close>

definition capacity_ok :: "csp \<Rightarrow> nat list \<Rightarrow> bool" where
  "capacity_ok s route \<longleftrightarrow>
     sum_list (map (\<lambda>c. demand (customers s ! c)) route) \<le> vehicle_capacity s"

definition route_invariant :: "csp \<Rightarrow> solution \<Rightarrow> bool" where
  "route_invariant s sol \<longleftrightarrow>
     distinct (concat (map snd sol))
     \<and> set (concat (map snd sol)) = set (variables s)
     \<and> (\<forall>(v, route)\<in>set sol.
           (route \<noteq> [] \<or> 0 \<le> vehicle_capacity s \<longrightarrow> capacity_ok s route)
           \<and> time_window_feasible s route)"

text \<open>
  What holds at every call of \<^verbatim>\<open>_backtrack\<close>: the tables are well formed, the routes
  hold exactly the assigned variables, each once, every route is feasible, and every
  domain list is ascending.
\<close>

definition search_invariant :: "csp \<Rightarrow> bool" where
  "search_invariant t \<longleftrightarrow>
     well_formed t
     \<and> distinct (routed t)
     \<and> set (routed t) = fst ` set (assignments t)
     \<and> fst ` set (assignments t) \<subseteq> set (variables t)
     \<and> distinct (map fst (assignments t))
     \<and> (\<forall>(v, r)\<in>set (routes t). (r \<noteq> [] \<longrightarrow> capacity_ok t r) \<and> time_window_feasible t r)
     \<and> (\<forall>n d. map_of (domains t) n = Some d \<longrightarrow> sorted d)"

lemma same_instance_refl: "same_instance s s"
  by (simp add: same_instance_def)

lemma same_instance_trans: "same_instance s t \<Longrightarrow> same_instance t u \<Longrightarrow> same_instance s u"
  by (simp add: same_instance_def)

lemma simulate_cong:
  assumes "customers t = customers s"
  shows "simulate t p c route = simulate s p c route"
proof (induction route arbitrary: p c)
  case Nil
  show ?case by simp
next
  case (Cons x route)
  have dm: "distance_matrix t = distance_matrix s" by (simp add: distance_matrix_def assms)
  show ?case unfolding simulate.simps Cons.IH dm assms ..
qed

lemma time_window_feasible_cong:
  "same_instance s t \<Longrightarrow> time_window_feasible t route = time_window_feasible s route"
  unfolding time_window_feasible_def same_instance_def by (intro simulate_cong) simp

lemma capacity_ok_cong: "same_instance s t \<Longrightarrow> capacity_ok t route = capacity_ok s route"
  by (simp add: capacity_ok_def same_instance_def)

lemma variables_same_instance: "same_instance s t \<Longrightarrow> variables t = variables s"
  by (simp add: same_instance_def variables_def num_customers_def)

lemma route_invariant_cong:
  assumes "same_instance s t"
  shows "route_invariant t sol = route_invariant s sol"
proof -
  have "vehicle_capacity t = vehicle_capacity s" using assms by (simp add: same_instance_def)
  then show ?thesis
    unfolding route_invariant_def
    by (simp only: variables_same_instance[OF assms] capacity_ok_cong[OF assms]
          time_window_feasible_cong[OF assms])
qed

text \<open>Appending a customer to the route of one vehicle.\<close>

lemma routed_update_set:
  "map_of R v = Some r \<Longrightarrow>
   set (concat (map snd (AList.update v (r @ [x]) R))) = insert x (set (concat (map snd R)))"
  by (induction R) (auto split: if_splits)

lemma routed_update_distinct:
  "map_of R v = Some r \<Longrightarrow> x \<notin> set (concat (map snd R)) \<Longrightarrow> distinct (concat (map snd R)) \<Longrightarrow>
   distinct (concat (map snd (AList.update v (r @ [x]) R)))"
proof (induction R)
  case Nil
  then show ?case by simp
next
  case (Cons p R)
  obtain k b where p: "p = (k, b)" by (cases p)
  show ?case
  proof (cases "k = v")
    case True
    with Cons.prems show ?thesis by (auto simp: p)
  next
    case False
    with Cons.prems have m: "map_of R v = Some r" by (simp add: p)
    have "set (concat (map snd (AList.update v (r @ [x]) R))) = insert x (set (concat (map snd R)))"
      by (rule routed_update_set[OF m])
    moreover have "distinct (concat (map snd (AList.update v (r @ [x]) R)))"
      using Cons.prems m by (intro Cons.IH) (simp_all add: p)
    ultimately show ?thesis using Cons.prems False by (simp add: p)
  qed
qed

lemma set_update_cases:
  "p \<in> set (AList.update v r' R) \<Longrightarrow> p = (v, r') \<or> p \<in> set R"
  by (induction R) (auto split: if_splits)

lemma keys_update_present:
  "map_of R v = Some r \<Longrightarrow> map fst (AList.update v r' R) = map fst R"
  by (induction R) (auto split: if_splits)

lemma feasible_capacity:
  "feasible s variable route \<longleftrightarrow>
     variable \<notin> set (routed s) \<and> capacity_ok s (route @ [variable])
     \<and> time_window_feasible s (route @ [variable])"
  by (simp add: feasible_def capacity_ok_def)

lemma search_invariant_range:
  assumes "search_invariant t"
  shows "\<forall>c\<in>set (routed t). c < length (customers t)"
  using assms by (simp add: search_invariant_def well_formed_def num_customers_def)

lemma commit_search_invariant:
  assumes inv: "search_invariant t"
    and var: "variable \<in> set (variables t)" "\<not> assigned t variable"
    and ok: "consistent_on_route t variable val = Some True"
  shows "\<exists>r. map_of (routes t) val = Some r
           \<and> commit t variable val =
               Some (t\<lparr>assignments := AList.update variable val (assignments t),
                       routes := AList.update val (r @ [variable]) (routes t)\<rparr>)
           \<and> search_invariant (t\<lparr>assignments := AList.update variable val (assignments t),
                                   routes := AList.update val (r @ [variable]) (routes t)\<rparr>)"
proof -
  from ok obtain r where r: "map_of (routes t) val = Some r"
    and ic: "is_consistent t variable val r = Some True"
    by (auto simp: consistent_on_route_def split: Option.bind_splits)
  let ?t1 = "t\<lparr>assignments := AList.update variable val (assignments t),
               routes := AList.update val (r @ [variable]) (routes t)\<rparr>"
  have range: "\<forall>c\<in>set (routed t). c < length (customers t)"
    by (rule search_invariant_range[OF inv])
  have rr: "\<forall>c\<in>set r. c < length (customers t)"
    using range map_of_routed[OF r] by auto
  have vr: "variable < length (customers t)" using variables_in_range[OF var(1)] by simp
  from is_consistent_feasible[OF vr rr, of val] ic
  have feas: "variable \<notin> set (routed t)" "capacity_ok t (r @ [variable])"
    "time_window_feasible t (r @ [variable])"
    by (simp_all add: feasible_capacity)
  have si: "same_instance t ?t1" by (simp add: same_instance_def)
  have c: "commit t variable val = Some ?t1"
    by (simp add: commit_def r)
  have routed1: "set (routed ?t1) = insert variable (set (routed t))"
    using routed_update_set[OF r, of variable] by (simp add: routed_def)
  have d1: "distinct (routed ?t1)"
    using routed_update_distinct[OF r, of variable] feas(1) inv
    by (simp add: routed_def search_invariant_def)
  have a1: "fst ` set (assignments ?t1) = insert variable (fst ` set (assignments t))"
    by (simp add: keys_update)
  have da: "distinct (map fst (assignments ?t1))"
    using inv by (simp add: search_invariant_def AList.distinct_update)
  have routes1: "\<forall>(v, r')\<in>set (routes ?t1). (r' \<noteq> [] \<longrightarrow> capacity_ok ?t1 r') \<and> time_window_feasible ?t1 r'"
  proof (intro ballI)
    fix p assume "p \<in> set (routes ?t1)"
    then have "p = (val, r @ [variable]) \<or> p \<in> set (routes t)"
      using set_update_cases[of p val "r @ [variable]" "routes t"] by simp
    then show "case p of (v, r') \<Rightarrow> (r' \<noteq> [] \<longrightarrow> capacity_ok ?t1 r') \<and> time_window_feasible ?t1 r'"
      using feas(2,3) inv
      by (auto simp: capacity_ok_cong[OF si] time_window_feasible_cong[OF si] search_invariant_def)
  qed
  have wf1: "well_formed ?t1"
    unfolding well_formed_def
  proof (intro conjI ballI impI)
    fix n assume n: "n \<in> set (variables ?t1)" "\<not> assigned ?t1 n"
    then have "n \<in> set (variables t)" "\<not> assigned t n"
      by (simp_all add: variables_same_instance[OF si] assigned_def keys_update)
    with inv have "case map_of (domains t) n of None \<Rightarrow> False
                   | Some d \<Rightarrow> \<forall>v\<in>set d. map_of (routes t) v \<noteq> None"
      by (simp add: search_invariant_def well_formed_def)
    then show "case map_of (domains ?t1) n of None \<Rightarrow> False
               | Some d \<Rightarrow> \<forall>v\<in>set d. map_of (routes ?t1) v \<noteq> None"
      by (auto simp: AList.update_conv' split: option.splits)
  next
    fix c assume "c \<in> set (routed ?t1)"
    with routed1 range vr show "c < num_customers ?t1"
      by (auto simp: num_customers_def)
  qed
  have "search_invariant ?t1"
    unfolding search_invariant_def
    using wf1 d1 routed1 a1 da routes1 inv var(1)
    by (simp add: search_invariant_def variables_same_instance[OF si])
  with r c show ?thesis by blast
qed


lemma forward_checking_search_invariant:
  assumes "search_invariant t"
  shows "\<exists>fc D. forward_checking t variable val = Some (fc, t\<lparr>domains := D\<rparr>)
               \<and> search_invariant (t\<lparr>domains := D\<rparr>)"
proof -
  have wf: "well_formed t" using assms by (simp add: search_invariant_def)
  show ?thesis
  proof (cases "\<exists>n\<in>set (variables t). \<not> assigned t n \<and> feasible_values t n = []")
    case True
    with forward_checking_cases[OF wf, of variable val]
    have "forward_checking t variable val = Some (False, t\<lparr>domains := domains t\<rparr>)" by simp
    moreover have "search_invariant (t\<lparr>domains := domains t\<rparr>)" using assms by simp
    ultimately show ?thesis by blast
  next
    case False
    with forward_checking_cases[OF wf, of variable val]
    obtain D where fc: "forward_checking t variable val = Some (True, t\<lparr>domains := D\<rparr>)"
      and D: "\<forall>n. map_of D n =
                      (if n \<in> set (variables t) \<and> \<not> assigned t n
                       then Some (feasible_values t n) else map_of (domains t) n)"
      by auto
    let ?t2 = "t\<lparr>domains := D\<rparr>"
    have si: "same_instance t ?t2" by (simp add: same_instance_def)
    have "well_formed ?t2"
      unfolding well_formed_def
    proof (intro conjI ballI impI)
      fix n assume "n \<in> set (variables ?t2)" "\<not> assigned ?t2 n"
      then have n: "n \<in> set (variables t)" "\<not> assigned t n"
        by (simp_all add: variables_same_instance[OF si])
      with wf obtain d where d: "map_of (domains t) n = Some d"
        and keys: "\<forall>v\<in>set d. map_of (routes t) v \<noteq> None"
        by (auto simp: well_formed_def split: option.splits)
      have "set (feasible_values t n) \<subseteq> set d"
        by (auto simp: feasible_values_def domain_of_def d)
      with keys n D show "case map_of (domains ?t2) n of None \<Rightarrow> False
               | Some d \<Rightarrow> \<forall>v\<in>set d. map_of (routes ?t2) v \<noteq> None"
        by auto
    next
      fix c assume "c \<in> set (routed ?t2)"
      with wf show "c < num_customers ?t2"
        by (auto simp: well_formed_def routed_def num_customers_def)
    qed
    moreover have "\<forall>n d. map_of (domains ?t2) n = Some d \<longrightarrow> sorted d"
    proof (intro allI impI)
      fix n d assume "map_of (domains ?t2) n = Some d"
      with D have d: "(if n \<in> set (variables t) \<and> \<not> assigned t n
                       then Some (feasible_values t n) else map_of (domains t) n) = Some d"
        by simp
      have old: "\<And>d'. map_of (domains t) n = Some d' \<Longrightarrow> sorted d'"
        using assms by (simp add: search_invariant_def)
      have "sorted (domain_of t n)"
        using old by (cases "map_of (domains t) n") (simp_all add: domain_of_def)
      then have "sorted (feasible_values t n)"
        by (simp add: feasible_values_def sorted_wrt_filter)
      with d old show "sorted d" by (auto split: if_splits)
    qed
    ultimately have "search_invariant ?t2"
      using assms
      by (simp add: search_invariant_def routed_def variables_same_instance[OF si]
            capacity_ok_cong[OF si] time_window_feasible_cong[OF si])
    with fc show ?thesis by blast
  qed
qed

lemma try_values_stale:
  assumes "variable \<in> set (routed t)" and "\<forall>v\<in>set vals. map_of (routes t) v \<noteq> None"
  shows "try_values t variable vals = Some (None, t)"
  using assms(2)
proof (induction vals)
  case Nil
  show ?case by simp
next
  case (Cons val rest)
  then obtain r where "map_of (routes t) val = Some r" by auto
  then have "consistent_on_route t variable val = Some False"
    using assms(1) by (simp add: consistent_on_route_def is_consistent_def)
  moreover have "try_values t variable rest = Some (None, t)"
    using Cons.prems by (intro Cons.IH) simp
  ultimately show ?case by simp
qed

lemma try_values_Cons_False:
  "consistent_on_route t variable val = Some False \<Longrightarrow>
   try_values t variable (val # rest) = try_values t variable rest"
  by simp

lemma try_values_Cons_True:
  assumes "consistent_on_route t variable val = Some True"
    and "commit t variable val = Some t1"
    and "forward_checking t1 variable val = Some (fc, t2)"
    and "(if fc then backtrack t2 else Some (None, t2)) = Some (result, t3)"
  shows "try_values t variable (val # rest) =
           (case result of
              Some r \<Rightarrow> Some (Some r, t3)
            | None \<Rightarrow> do { t4 \<leftarrow> undo t3 variable (routes t1); try_values t4 variable rest })"
  using assms by (simp add: Let_def)

lemma complete_assignment:
  assumes "distinct (map fst a)" and "fst ` set a \<subseteq> set vs" and "distinct vs"
    and "length a = length vs"
  shows "fst ` set a = set vs"
proof -
  have "card (fst ` set a) = length a"
    using distinct_card[OF assms(1)] by simp
  also have "\<dots> = card (set vs)" using assms(4) distinct_card[OF assms(3)] by simp
  finally show ?thesis using assms(2) by (intro card_subset_eq) simp_all
qed

lemma select_unassigned_variable_defined:
  assumes "well_formed t" and "\<exists>n\<in>set (variables t). \<not> assigned t n"
  shows "\<exists>variable. select_unassigned_variable t = Some variable"
proof -
  let ?un = "filter (\<lambda>v. \<not> assigned t v) (variables t)"
  have "those (map (\<lambda>var. map_option length (map_of (domains t) var)) ?un)
          = Some (map (\<lambda>var. length (domain_of t var)) ?un)"
    using assms(1)
    by (intro those_map_Some) (auto simp: well_formed_def domain_of_def split: option.splits)
  moreover from assms(2) have "?un \<noteq> []" by (simp add: filter_empty_conv)
  then have "\<exists>v. min_by_key (zip ?un (map (\<lambda>var. length (domain_of t var)) ?un)) = Some v"
    by (cases ?un) (simp_all add: min_by_key_def)
  ultimately show ?thesis by (simp add: select_unassigned_variable_def Let_def)
qed


text \<open>
  What a call of the search leaves: the same instance, every assignment still there
  (but the one of the variable the loop is trying), and a solution that satisfies the
  Route invariant over the same vehicles.
\<close>

definition search_result :: "csp \<Rightarrow> nat option \<Rightarrow> solution option \<Rightarrow> csp \<Rightarrow> bool" where
  "search_result t skip res t' \<longleftrightarrow>
     same_instance t t'
     \<and> (\<forall>v. Some v \<noteq> skip \<and> assigned t v \<longrightarrow> assigned t' v)
     \<and> (\<forall>sol. res = Some sol \<longrightarrow> route_invariant t sol \<and> map fst sol = map fst (routes t))"

lemma backtrack_total_correct:
  shows "search_invariant t \<Longrightarrow> \<exists>res t'. backtrack t = Some (res, t') \<and> search_result t None res t'"
    and "search_invariant t \<Longrightarrow> variable \<in> set (variables t) \<Longrightarrow> \<not> assigned t variable \<Longrightarrow>
         \<forall>v\<in>set vals. map_of (routes t) v \<noteq> None \<Longrightarrow>
         \<exists>res t'. try_values t variable vals = Some (res, t') \<and> search_result t (Some variable) res t'"
proof (induction t and t variable vals rule: backtrack_try_values.induct)
  case (1 s)
  note inv = "1.prems"
  have wf: "well_formed s" using inv by (simp add: search_invariant_def)
  show ?case
  proof (cases "length (assignments s) = length (variables s)")
    case True
    have "fst ` set (assignments s) = set (variables s)"
      using inv True by (intro complete_assignment) (simp_all add: search_invariant_def distinct_variables)
    with inv have "route_invariant s (routes s)"
      by (auto simp: route_invariant_def search_invariant_def routed_def capacity_ok_def)
    then have "search_result s None (Some (routes s)) s"
      by (simp add: search_result_def same_instance_refl)
    with True show ?thesis by (simp add: backtrack.simps)
  next
    case False
    have "\<exists>n\<in>set (variables s). \<not> assigned s n"
    proof (rule ccontr)
      assume "\<not> (\<exists>n\<in>set (variables s). \<not> assigned s n)"
      then have "set (variables s) \<subseteq> fst ` set (assignments s)" by (auto simp: assigned_def)
      with inv have eq: "fst ` set (assignments s) = set (variables s)"
        by (auto simp: search_invariant_def)
      have "length (assignments s) = card (fst ` set (assignments s))"
        using inv distinct_card[of "map fst (assignments s)"] by (simp add: search_invariant_def)
      also have "\<dots> = length (variables s)"
        unfolding eq using distinct_card[OF distinct_variables, of s] by simp
      finally show False using False by simp
    qed
    from select_unassigned_variable_defined[OF wf this]
    obtain var where sel: "select_unassigned_variable s = Some var" by blast
    from select_unassigned_variable_mem[OF sel]
    have var: "var \<in> set (variables s)" "\<not> assigned s var" by simp_all
    have dom: "\<forall>n\<in>set (variables s). \<not> assigned s n \<longrightarrow> map_of (domains s) n \<noteq> None"
      using wf by (auto simp: well_formed_def split: option.splits)
    have sv: "sorted_values s var = Some (sort_key (lcv_count s var) (domain_of s var))"
      by (rule sorted_values_sort_key[OF dom var])
    have keys: "\<forall>v\<in>set (sort_key (lcv_count s var) (domain_of s var)). map_of (routes s) v \<noteq> None"
      using wf var by (auto simp: well_formed_def domain_of_def split: option.splits)
    from "1.IH"[OF False sel sv inv var keys]
    obtain res t' where tv: "try_values s var (sort_key (lcv_count s var) (domain_of s var)) = Some (res, t')"
      and sr: "search_result s (Some var) res t'"
      by blast
    from sr var(2) have "search_result s None res t'"
      by (auto simp: search_result_def)
    with tv False sel sv show ?thesis by (simp add: backtrack.simps)
  qed
next
  case (2 s variable)
  show ?case by (simp add: search_result_def same_instance_refl)
next
  case (3 s variable val rest)
  note inv = "3.prems"(1) and var = "3.prems"(2,3) and keys = "3.prems"(4)
  have range: "\<forall>c\<in>set (routed s). c < length (customers s)"
    by (rule search_invariant_range[OF inv])
  have vr: "variable < length (customers s)" using variables_in_range[OF var(1)] by simp
  from keys have key: "map_of (routes s) val \<noteq> None" by simp
  have con: "consistent_on_route s variable val = Some (feasible s variable (route_of s val))"
    by (rule consistent_on_route_feasible[OF vr range key])
  show ?case
  proof (cases "feasible s variable (route_of s val)")
    case False
    with con have c: "consistent_on_route s variable val = Some False" by simp
    from keys have "\<forall>v\<in>set rest. map_of (routes s) v \<noteq> None" by simp
    from "3.IH"(3)[OF c _ inv var this] show ?thesis
      by (simp only: try_values_Cons_False[OF c]) simp
  next
    case True
    with con have c: "consistent_on_route s variable val = Some True" by simp
    from commit_search_invariant[OF inv var c]
    obtain r where r: "map_of (routes s) val = Some r"
      and cm: "commit s variable val =
               Some (s\<lparr>assignments := AList.update variable val (assignments s),
                       routes := AList.update val (r @ [variable]) (routes s)\<rparr>)"
      and inv1: "search_invariant (s\<lparr>assignments := AList.update variable val (assignments s),
                                   routes := AList.update val (r @ [variable]) (routes s)\<rparr>)"
      by blast
    define t1 where "t1 = s\<lparr>assignments := AList.update variable val (assignments s),
                            routes := AList.update val (r @ [variable]) (routes s)\<rparr>"
    note cm = cm[folded t1_def] and inv1 = inv1[folded t1_def]
    have si1: "same_instance s t1" by (simp add: t1_def same_instance_def)
    have keys1: "map fst (routes t1) = map fst (routes s)"
      by (simp add: t1_def keys_update_present[OF r])
    have as1: "assigned t1 v \<longleftrightarrow> (v = variable \<or> assigned s v)" for v
      by (simp add: t1_def assigned_def keys_update)
    have stale1: "variable \<in> set (routed t1)"
      using routed_update_set[OF r, of variable] by (simp add: t1_def routed_def)
    from forward_checking_search_invariant[OF inv1, of variable val]
    obtain fc D where fc: "forward_checking t1 variable val = Some (fc, t1\<lparr>domains := D\<rparr>)"
      and inv2: "search_invariant (t1\<lparr>domains := D\<rparr>)"
      by blast
    define t2 where "t2 = t1\<lparr>domains := D\<rparr>"
    note fc = fc[folded t2_def] and inv2 = inv2[folded t2_def]
    have si2: "same_instance s t2" using si1 by (simp add: t2_def same_instance_def)
    have keys2: "map fst (routes t2) = map fst (routes s)" using keys1 by (simp add: t2_def)
    have as2: "assigned t2 v \<longleftrightarrow> (v = variable \<or> assigned s v)" for v
      using as1[of v] by (simp add: t2_def assigned_def)
    have "\<exists>result t3. (if fc then backtrack t2 else Some (None, t2)) = Some (result, t3)
            \<and> search_result t2 None result t3"
    proof (cases fc)
      case True
      from "3.IH"(1)[OF c _ cm refl fc refl True inv2] True show ?thesis by simp
    next
      case False
      then show ?thesis by (simp add: search_result_def same_instance_refl)
    qed
    then obtain result t3 where
      b: "(if fc then backtrack t2 else Some (None, t2)) = Some (result, t3)"
      and sr3: "search_result t2 None result t3"
      by blast
    have si3: "same_instance s t3"
      using sr3 si2 by (auto simp: search_result_def intro: same_instance_trans)
    have as3: "assigned t2 v \<Longrightarrow> assigned t3 v" for v
      using sr3 by (simp add: search_result_def)
    note step = try_values_Cons_True[OF c cm fc b, of rest]
    show ?thesis
    proof (cases result)
      case (Some sol)
      with sr3 have "route_invariant t2 sol" "map fst sol = map fst (routes t2)"
        by (simp_all add: search_result_def)
      then have "route_invariant s sol" "map fst sol = map fst (routes s)"
        using route_invariant_cong[OF si2, of sol] keys2 by simp_all
      moreover have "\<forall>v. v \<noteq> variable \<and> assigned s v \<longrightarrow> assigned t3 v"
        using as2 as3 by blast
      ultimately have "search_result s (Some variable) (Some sol) t3"
        using si3 by (simp add: search_result_def)
      with step Some show ?thesis by simp
    next
      case None
      have "assigned t3 variable" using as2[of variable] as3 by simp
      then have u: "undo t3 variable (routes t1) =
                      Some (t3\<lparr>assignments := AList.delete variable (assignments t3),
                              routes := routes t1\<rparr>)"
        by (simp add: undo_def)
      define t4 where "t4 = t3\<lparr>assignments := AList.delete variable (assignments t3),
                              routes := routes t1\<rparr>"
      have "variable \<in> set (routed t4)" using stale1 by (simp add: t4_def routed_def)
      moreover have "\<forall>v\<in>set rest. map_of (routes t4) v \<noteq> None"
      proof
        fix v assume "v \<in> set rest"
        with keys have "v \<in> set (map fst (routes s))"
          by (auto simp: map_of_eq_None_iff)
        then have "v \<in> set (map fst (routes t1))" by (simp only: keys1)
        then show "map_of (routes t4) v \<noteq> None"
          by (simp add: t4_def map_of_eq_None_iff)
      qed
      ultimately have tv: "try_values t4 variable rest = Some (None, t4)"
        by (rule try_values_stale)
      have "same_instance s t4" using si3 by (simp add: t4_def same_instance_def)
      moreover have "\<forall>v. v \<noteq> variable \<and> assigned s v \<longrightarrow> assigned t4 v"
        using as2 as3 by (auto simp: t4_def assigned_def keys_delete)
      ultimately have "search_result s (Some variable) None t4"
        by (simp add: search_result_def)
      with step None u tv show ?thesis by (simp add: t4_def)
    qed
  qed
qed


text \<open>
  One attempt of \<^verbatim>\<open>solve\<close> with cap \<open>k\<close> on fresh tables: \<open>Some None\<close> when the
  arc-consistency pass reports inconsistency or the search finds nothing,
  \<open>Some (Some sol)\<close> when the search returns \<open>sol\<close>. \<open>first_solution\<close> is the first
  success in a list of caps.
\<close>

definition attempt :: "csp \<Rightarrow> nat \<Rightarrow> solution option option" where
  "attempt s k = do {
     (consistent, s2) \<leftarrow> arc_consistency (reset s k);
     if consistent then do {
       (solution, s3) \<leftarrow> backtracking_search s2;
       Some (if solution \<noteq> None \<and> solution \<noteq> Some [] then solution else None)
     }
     else Some None
   }"

fun first_solution :: "csp \<Rightarrow> nat list \<Rightarrow> solution option" where
  "first_solution s [] = None"
| "first_solution s (k # ks) =
     (case attempt s k of Some (Some sol) \<Rightarrow> Some sol | _ \<Rightarrow> first_solution s ks)"

lemma reset_same_instance: "same_instance s t \<Longrightarrow> reset t k = reset s k"
  by (cases s; cases t) (simp add: reset_def same_instance_def variables_def num_customers_def)

lemma same_instance_reset: "same_instance s (reset s k)"
  by (simp add: reset_def same_instance_def)

lemma search_invariant_reset: "search_invariant (reset s k)"
proof -
  have "well_formed (reset s k)"
    by (auto simp: well_formed_def map_of_domains_reset map_of_routes_reset)
  moreover have "assignments (reset s k) = []" "routes (reset s k) = map (\<lambda>v. (v, [])) [0..<k]"
    by (simp_all add: reset_def)
  moreover have "time_window_feasible (reset s k) []"
    by (simp add: time_window_feasible_def)
  moreover have "\<forall>n d. map_of (domains (reset s k)) n = Some d \<longrightarrow> sorted d"
    by (simp add: map_of_domains_reset)
  ultimately show ?thesis by (auto simp: search_invariant_def)
qed

subsection \<open>Value ordering at a search node\<close>

text \<open>
  C8. At a search node (a state that satisfies the search invariant, as the state
  \<^verbatim>\<open>solve\<close> starts the search from does, and as every state does that the search
  enters after a commitment and forward checking) that is not complete,
  \<^verbatim>\<open>_backtrack\<close> tries the candidate
  values of the selected variable in the order of a stable sort of its domain by the
  Least-Constraining-Value count: ascending count of the other unassigned variables whose
  domains hold the value, ties in ascending value order. The key the code computes,
  \<^verbatim>\<open>_least_constraining_value\<close>, also counts the selected variable itself, which
  adds one to every key and leaves the order as it is. Ties are in ascending value order
  because the domain lists are ascending: they start as \<^verbatim>\<open>range(vehicle_limit)\<close> and
  are only filtered.
\<close>

theorem candidate_values_in_lcv_order:
  assumes "search_invariant s"
    and "length (assignments s) \<noteq> length (variables s)"
    and "select_unassigned_variable s = Some variable"
  shows "\<exists>vals. sorted_values s variable = Some vals
           \<and> backtrack s = try_values s variable vals
           \<and> vals = sort_key (lcv_count s variable) (domain_of s variable)
           \<and> set vals = set (domain_of s variable) \<and> length vals = length (domain_of s variable)
           \<and> sorted_wrt (lcv_before s variable) vals"
proof -
  have wf: "well_formed s" using assms(1) by (simp add: search_invariant_def)
  have sorted_domain: "sorted (domain_of s variable)"
    using assms(1)
    by (cases "map_of (domains s) variable") (simp_all add: search_invariant_def domain_of_def)
  have dom: "\<forall>n\<in>set (variables s). \<not> assigned s n \<longrightarrow> map_of (domains s) n \<noteq> None"
    using wf by (auto simp: well_formed_def split: option.splits)
  from select_unassigned_variable_mem[OF assms(3)]
  have sv: "sorted_values s variable = Some (sort_key (lcv_count s variable) (domain_of s variable))"
    by (intro sorted_values_sort_key dom) simp_all
  have "sorted_wrt (lcv_before s variable) (sort_key (lcv_count s variable) (domain_of s variable))"
    using sort_key_sorted_wrt[OF sorted_domain, of "lcv_count s variable"]
    by (simp add: lcv_before_def[abs_def])
  with sv assms(2,3) show ?thesis by (simp add: backtrack.simps)
qed

text \<open>
  Three customers and three vehicles, nothing assigned; variable 1 has the smallest
  domain, and its value 1 is in fewer other domains than its value 0.
\<close>

definition lcv_example :: csp where
  "lcv_example =
     (reset (init [the_depot, mk_customer 1 0 0 10 0 1000 0, mk_customer 2 0 0 10 0 1000 0,
                   mk_customer 3 0 0 10 0 1000 0] 15 3) 3)
       \<lparr>domains := [(1, [0, 1]), (2, [0, 2]), (3, [0, 1, 2])]\<rparr>"

lemma lcv_example_variables: "variables lcv_example = [1, 2, 3]"
  by (simp add: lcv_example_def example_defs upt_rec)

lemma lcv_example_assigned: "\<not> assigned lcv_example n"
  by (simp add: lcv_example_def example_defs assigned_def)

lemma lcv_example_domains: "domains lcv_example = [(1, [0, 1]), (2, [0, 2]), (3, [0, 1, 2])]"
  by (simp add: lcv_example_def)

lemma lcv_example_invariant: "search_invariant lcv_example"
  by (simp add: search_invariant_def well_formed_def lcv_example_variables lcv_example_assigned
        lcv_example_domains)
     (simp add: lcv_example_def example_defs routed_def time_window_feasible_def upt_rec)

lemma lcv_example_select: "select_unassigned_variable lcv_example = Some 1"
  by (simp add: select_unassigned_variable_def lcv_example_variables lcv_example_assigned
        lcv_example_domains min_by_key_def)

lemma lcv_example_counts: "lcv_count lcv_example 1 0 = 2 \<and> lcv_count lcv_example 1 1 = 1"
  by (simp add: lcv_count_def domain_of_def lcv_example_variables lcv_example_assigned
        lcv_example_domains)

theorem candidate_values_in_lcv_order_witness:
  "select_unassigned_variable lcv_example = Some 1
   \<and> domain_of lcv_example 1 = [0, 1]
   \<and> lcv_count lcv_example 1 0 = 2 \<and> lcv_count lcv_example 1 1 = 1
   \<and> sorted_values lcv_example 1 = Some [1, 0]
   \<and> backtrack lcv_example = try_values lcv_example 1 [1, 0]"
proof -
  have d: "domain_of lcv_example 1 = [0, 1]"
    by (simp add: domain_of_def lcv_example_domains)
  have "length (assignments lcv_example) \<noteq> length (variables lcv_example)"
    by (simp add: lcv_example_variables) (simp add: lcv_example_def example_defs)
  from candidate_values_in_lcv_order[OF lcv_example_invariant this lcv_example_select]
  obtain vals where "sorted_values lcv_example 1 = Some vals"
    and "backtrack lcv_example = try_values lcv_example 1 vals"
    and "vals = sort_key (lcv_count lcv_example 1) (domain_of lcv_example 1)"
    unfolding d by auto
  moreover have "sort_key (lcv_count lcv_example 1) [0, 1] = [1, 0]"
    using lcv_example_counts by simp
  ultimately show ?thesis using d lcv_example_select lcv_example_counts by simp
qed

subsection \<open>Attempts with one vehicle cap\<close>

lemma arc_consistency_reset_result:
  assumes "1 \<le> k"
  shows "\<exists>ok s2. arc_consistency (reset s k) = Some (ok, s2) \<and> same_instance s s2
           \<and> (ok \<longrightarrow> s2 = reset s k)"
proof (cases "2 \<le> length (variables s) \<and> (\<exists>x\<in>set (variables s). \<not> feasible_alone s x)")
  case True
  with arc_consistency_reset_cases[OF assms, of s]
  obtain x where "arc_consistency (reset s k) =
      Some (False, (reset s k)\<lparr>domains := AList.update x [] (domains (reset s k))\<rparr>)"
    by auto
  moreover have "same_instance s ((reset s k)\<lparr>domains := AList.update x [] (domains (reset s k))\<rparr>)"
    by (simp add: same_instance_def reset_def)
  ultimately show ?thesis by blast
next
  case False
  with arc_consistency_reset_cases[OF assms, of s]
  have "arc_consistency (reset s k) = Some (True, reset s k)" by auto
  with same_instance_reset[of s k] show ?thesis by blast
qed

lemma attempt_steps:
  assumes "1 \<le> k"
  shows "\<exists>ok s2. arc_consistency (reset s k) = Some (ok, s2) \<and> same_instance s s2 \<and>
           (if ok then \<exists>sol s3. backtracking_search s2 = Some (sol, s3) \<and> same_instance s s3
                        \<and> attempt s k = Some (if sol \<noteq> None \<and> sol \<noteq> Some [] then sol else None)
                        \<and> (\<forall>r. sol = Some r \<longrightarrow> route_invariant s r \<and> map fst r = [0..<k])
            else attempt s k = Some None)"
proof -
  from arc_consistency_reset_result[OF assms, of s]
  obtain ok s2 where ac: "arc_consistency (reset s k) = Some (ok, s2)"
    and si2: "same_instance s s2" and ok: "ok \<longrightarrow> s2 = reset s k"
    by blast
  show ?thesis
  proof (cases ok)
    case False
    with ac have at: "attempt s k = Some None" by (simp add: attempt_def)
    show ?thesis
      by (rule exI[of _ ok], rule exI[of _ s2]) (simp add: ac si2 False at)
  next
    case True
    with ok have s2: "s2 = reset s k" by simp
    from backtrack_total_correct(1)[OF search_invariant_reset, of s k]
    obtain sol s3 where b: "backtrack (reset s k) = Some (sol, s3)"
      and sr: "search_result (reset s k) None sol s3"
      by blast
    have si3: "same_instance s s3"
      using sr same_instance_reset[of s k] by (auto simp: search_result_def intro: same_instance_trans)
    have keys: "map fst (routes (reset s k)) = [0..<k]"
      by (simp add: reset_def comp_def)
    have ri: "\<forall>r. sol = Some r \<longrightarrow> route_invariant s r \<and> map fst r = [0..<k]"
    proof (intro allI impI)
      fix r assume "sol = Some r"
      with sr have "route_invariant (reset s k) r" "map fst r = map fst (routes (reset s k))"
        by (simp_all add: search_result_def)
      then show "route_invariant s r \<and> map fst r = [0..<k]"
        using route_invariant_cong[OF same_instance_reset[of s k], of r] keys by simp
    qed
    have ac': "arc_consistency (reset s k) = Some (True, reset s k)"
      using ac True unfolding s2 by simp
    have bs: "backtracking_search (reset s k) = Some (sol, s3)"
      unfolding backtracking_search_def by (rule b)
    have at: "attempt s k = Some (if sol \<noteq> None \<and> sol \<noteq> Some [] then sol else None)"
      unfolding attempt_def ac' using bs by simp
    have inner: "\<exists>sol s3. backtracking_search (reset s k) = Some (sol, s3) \<and> same_instance s s3
                        \<and> attempt s k = Some (if sol \<noteq> None \<and> sol \<noteq> Some [] then sol else None)
                        \<and> (\<forall>r. sol = Some r \<longrightarrow> route_invariant s r \<and> map fst r = [0..<k])"
      by (rule exI[of _ sol], rule exI[of _ s3]) (intro conjI bs si3 at ri)
    show ?thesis
    proof (rule exI[of _ True], rule exI[of _ "reset s k"], intro conjI)
      show "arc_consistency (reset s k) = Some (True, reset s k)" by (rule ac')
      show "same_instance s (reset s k)" by (rule same_instance_reset)
      show "if True then \<exists>sol s3. backtracking_search (reset s k) = Some (sol, s3) \<and> same_instance s s3
                        \<and> attempt s k = Some (if sol \<noteq> None \<and> sol \<noteq> Some [] then sol else None)
                        \<and> (\<forall>r. sol = Some r \<longrightarrow> route_invariant s r \<and> map fst r = [0..<k])
            else attempt s k = Some None"
        unfolding if_True by (rule inner)
    qed
  qed
qed

lemma attempt_result:
  assumes "1 \<le> k"
  shows "\<exists>res. attempt s k = Some res
           \<and> (\<forall>sol. res = Some sol \<longrightarrow> route_invariant s sol \<and> map fst sol = [0..<k])"
proof -
  from attempt_steps[OF assms, of s]
  obtain ok s2 where
    rest: "if ok then \<exists>sol s3. backtracking_search s2 = Some (sol, s3) \<and> same_instance s s3
                        \<and> attempt s k = Some (if sol \<noteq> None \<and> sol \<noteq> Some [] then sol else None)
                        \<and> (\<forall>r. sol = Some r \<longrightarrow> route_invariant s r \<and> map fst r = [0..<k])
            else attempt s k = Some None"
    by blast
  show ?thesis
  proof (cases ok)
    case False
    with rest show ?thesis by simp
  next
    case True
    with rest obtain sol where
      at: "attempt s k = Some (if sol \<noteq> None \<and> sol \<noteq> Some [] then sol else None)"
      and ri: "\<forall>r. sol = Some r \<longrightarrow> route_invariant s r \<and> map fst r = [0..<k]"
      by auto
    show ?thesis
    proof (cases "sol \<noteq> None \<and> sol \<noteq> Some []")
      case True
      with at ri show ?thesis by simp
    next
      case False
      then have "(if sol \<noteq> None \<and> sol \<noteq> Some [] then sol else None) = None"
        by (simp only: if_False)
      with at have "attempt s k = Some None" by (simp only:)
      then show ?thesis by simp
    qed
  qed
qed

lemma solve_loop_first_solution:
  assumes "same_instance s t" and "\<forall>k\<in>set ks. 1 \<le> k"
  shows "\<exists>t'. solve_loop t ks = Some (first_solution s ks, t') \<and> same_instance s t'"
  using assms
proof (induction ks arbitrary: t)
  case Nil
  then show ?case by simp
next
  case (Cons k ks)
  have k: "1 \<le> k" using Cons.prems by simp
  have rs: "reset t k = reset s k" by (rule reset_same_instance[OF Cons.prems(1)])
  from attempt_steps[OF k, of s]
  obtain ok s2 where ac: "arc_consistency (reset s k) = Some (ok, s2)"
    and si2: "same_instance s s2"
    and rest: "if ok then \<exists>sol s3. backtracking_search s2 = Some (sol, s3) \<and> same_instance s s3
                        \<and> attempt s k = Some (if sol \<noteq> None \<and> sol \<noteq> Some [] then sol else None)
                        \<and> (\<forall>r. sol = Some r \<longrightarrow> route_invariant s r \<and> map fst r = [0..<k])
            else attempt s k = Some None"
    by blast
  show ?case
  proof (cases ok)
    case False
    with rest have at: "attempt s k = Some None" by simp
    from Cons.IH[OF si2] Cons.prems(2)
    obtain t' where "solve_loop s2 ks = Some (first_solution s ks, t')" "same_instance s t'"
      by auto
    with False ac at show ?thesis by (simp add: rs Let_def)
  next
    case True
    with rest obtain sol s3 where b: "backtracking_search s2 = Some (sol, s3)"
      and si3: "same_instance s s3"
      and at: "attempt s k = Some (if sol \<noteq> None \<and> sol \<noteq> Some [] then sol else None)"
      by auto
    show ?thesis
    proof (cases "sol \<noteq> None \<and> sol \<noteq> Some []")
      case truthy: True
      then obtain r where r: "sol = Some r" "r \<noteq> []" by auto
      with at have at': "attempt s k = Some (Some r)" by simp
      have "solve_loop t (k # ks) = Some (Some r, s3)"
        using True ac b r by (simp add: rs Let_def)
      moreover have "first_solution s (k # ks) = Some r" using at' by simp
      ultimately show ?thesis using si3 by simp
    next
      case False
      then have "(if sol \<noteq> None \<and> sol \<noteq> Some [] then sol else None) = None"
        by (simp only: if_False)
      with at have at': "attempt s k = Some None" by (simp only:)
      from Cons.IH[OF si3] Cons.prems(2)
      obtain t' where t': "solve_loop s3 ks = Some (first_solution s ks, t')" "same_instance s t'"
        by auto
      from False have "sol = None \<or> sol = Some []" by simp
      then have "solve_loop t (k # ks) = solve_loop s3 ks"
        using True ac b by (auto simp: rs Let_def)
      moreover have "first_solution s (k # ks) = first_solution s ks" using at' by simp
      ultimately show ?thesis using t' by simp
    qed
  qed
qed

subsection \<open>The solutions of solve\<close>

lemma first_solution_Some:
  "first_solution s ks = Some sol \<Longrightarrow> \<exists>k\<in>set ks. attempt s k = Some (Some sol)"
  by (induction ks) (auto split: option.splits)

lemma first_solution_upt:
  assumes "\<forall>k. a \<le> k \<and> k < b \<longrightarrow> (\<exists>r. attempt s k = Some r)"
  shows "case first_solution s [a..<b] of
           None \<Rightarrow> \<forall>k. a \<le> k \<and> k < b \<longrightarrow> attempt s k = Some None
         | Some sol \<Rightarrow> \<exists>k. a \<le> k \<and> k < b \<and> attempt s k = Some (Some sol)
                        \<and> (\<forall>j. a \<le> j \<and> j < k \<longrightarrow> attempt s j = Some None)"
  using assms
proof (induction "b - a" arbitrary: a)
  case 0
  then have ba: "b \<le> a" by simp
  then have e: "[a..<b] = []" by simp
  show ?case unfolding e using ba by auto
next
  case (Suc n)
  then have ab: "a < b" by simp
  then have upt: "[a..<b] = a # [Suc a..<b]" by (simp add: upt_conv_Cons)
  from Suc.prems ab obtain r where r: "attempt s a = Some r" by blast
  show ?case
  proof (cases r)
    case (Some sol)
    with r ab show ?thesis by (auto simp: upt)
  next
    case None
    have n: "n = b - Suc a" using Suc.hyps(2) by simp
    have "\<forall>k. Suc a \<le> k \<and> k < b \<longrightarrow> (\<exists>r. attempt s k = Some r)"
      using Suc.prems by simp
    from Suc.hyps(1)[OF n this]
    have ih: "case first_solution s [Suc a..<b] of
           None \<Rightarrow> \<forall>k. Suc a \<le> k \<and> k < b \<longrightarrow> attempt s k = Some None
         | Some sol \<Rightarrow> \<exists>k. Suc a \<le> k \<and> k < b \<and> attempt s k = Some (Some sol)
                        \<and> (\<forall>j. Suc a \<le> j \<and> j < k \<longrightarrow> attempt s j = Some None)" .
    have fs: "first_solution s [a..<b] = first_solution s [Suc a..<b]"
      using r None by (simp add: upt)
    have a_none: "attempt s a = Some None" using r None by simp
    show ?thesis
    proof (cases "first_solution s [Suc a..<b]")
      case None
      with ih have "\<forall>k. Suc a \<le> k \<and> k < b \<longrightarrow> attempt s k = Some None" by simp
      with a_none have "\<forall>k. a \<le> k \<and> k < b \<longrightarrow> attempt s k = Some None"
        by (metis Suc_leI le_neq_implies_less)
      with None fs show ?thesis by simp
    next
      case (Some sol)
      with ih obtain k where k: "Suc a \<le> k" "k < b" "attempt s k = Some (Some sol)"
        "\<forall>j. Suc a \<le> j \<and> j < k \<longrightarrow> attempt s j = Some None"
        by auto
      with a_none have "\<forall>j. a \<le> j \<and> j < k \<longrightarrow> attempt s j = Some None"
        by (metis Suc_leI le_neq_implies_less)
      with k have "\<exists>k. a \<le> k \<and> k < b \<and> attempt s k = Some (Some sol)
                        \<and> (\<forall>j. a \<le> j \<and> j < k \<longrightarrow> attempt s j = Some None)"
        by (intro exI[of _ k]) simp
      with Some fs show ?thesis by simp
    qed
  qed
qed

lemma solve_first_solution:
  "\<exists>s'. solve s = Some (first_solution s [1..<num_vehicles s + 1], s') \<and> same_instance s s'"
  unfolding solve_def
  by (rule solve_loop_first_solution[OF same_instance_refl]) auto

text \<open>
  C3. Every solution \<^verbatim>\<open>solve\<close> returns satisfies the Route invariant: the routes
  together hold every non-depot customer exactly once and nothing else, every route
  passes the time-window simulation of section 4.2, and the demands of every route that
  serves a customer are within the vehicle capacity (as are those of the empty routes
  when the capacity is not negative, which the specification's input contract states).
\<close>

theorem solve_solution_route_invariant:
  assumes "solve s = Some (Some sol, s')"
  shows "route_invariant s sol"
proof -
  from solve_first_solution[of s] assms
  have "first_solution s [1..<num_vehicles s + 1] = Some sol" by auto
  from first_solution_Some[OF this]
  obtain k where "1 \<le> k" and at: "attempt s k = Some (Some sol)" by auto
  from attempt_result[OF this(1), of s] at show ?thesis by auto
qed

text \<open>
  C4. \<^verbatim>\<open>solve\<close> always returns. Its result is that of the first successful attempt
  among the caps \<open>1, 2, \<dots>, num_vehicles\<close> in increasing order, each attempt made on
  freshly reset tables (\<open>attempt s k\<close> starts from \<open>reset s k\<close> of the instance,
  whatever the earlier attempts left behind); an attempt whose arc-consistency pass
  reports inconsistency fails without a search. If a solution is returned its table has
  the \<open>k\<close> vehicles \<open>0..k-1\<close> of the successful cap, that attempt returned it, and
  every attempt with a smaller cap failed. If no attempt up to the fleet size succeeds,
  the no-solution result is returned.
\<close>

theorem solve_tries_caps_in_order:
  "\<exists>res s'. solve s = Some (res, s')
     \<and> (\<forall>k s2. arc_consistency (reset s k) = Some (False, s2) \<longrightarrow> attempt s k = Some None)
     \<and> (case res of
          None \<Rightarrow> \<forall>k. 1 \<le> k \<and> k \<le> num_vehicles s \<longrightarrow> attempt s k = Some None
        | Some sol \<Rightarrow>
            \<exists>k. 1 \<le> k \<and> k \<le> num_vehicles s \<and> map fst sol = [0..<k]
               \<and> attempt s k = Some (Some sol)
               \<and> (\<forall>j. 1 \<le> j \<and> j < k \<longrightarrow> attempt s j = Some None))"
proof -
  let ?n = "num_vehicles s"
  from solve_first_solution[of s]
  obtain s' where sol: "solve s = Some (first_solution s [1..<?n + 1], s')" by blast
  have skip: "\<forall>k s2. arc_consistency (reset s k) = Some (False, s2) \<longrightarrow> attempt s k = Some None"
    by (simp add: attempt_def)
  have defined: "\<forall>k. 1 \<le> k \<and> k < ?n + 1 \<longrightarrow> (\<exists>r. attempt s k = Some r)"
    using attempt_result[of _ s] by blast
  note fs = first_solution_upt[OF defined]
  have "case first_solution s [1..<?n + 1] of
          None \<Rightarrow> \<forall>k. 1 \<le> k \<and> k \<le> ?n \<longrightarrow> attempt s k = Some None
        | Some sol \<Rightarrow>
            \<exists>k. 1 \<le> k \<and> k \<le> ?n \<and> map fst sol = [0..<k]
               \<and> attempt s k = Some (Some sol)
               \<and> (\<forall>j. 1 \<le> j \<and> j < k \<longrightarrow> attempt s j = Some None)"
  proof (cases "first_solution s [1..<?n + 1]")
    case None
    with fs show ?thesis by (simp add: less_Suc_eq_le)
  next
    case (Some r)
    with fs obtain k where k: "1 \<le> k" "k < ?n + 1" "attempt s k = Some (Some r)"
      "\<forall>j. 1 \<le> j \<and> j < k \<longrightarrow> attempt s j = Some None"
      by auto
    from attempt_result[OF k(1), of s] k(3) have "map fst r = [0..<k]" by auto
    with k have "\<exists>k. 1 \<le> k \<and> k \<le> ?n \<and> map fst r = [0..<k]
               \<and> attempt s k = Some (Some r)
               \<and> (\<forall>j. 1 \<le> j \<and> j < k \<longrightarrow> attempt s j = Some None)"
      by (intro exI[of _ k]) simp
    with Some show ?thesis by simp
  qed
  with sol skip show ?thesis by blast
qed

subsection \<open>Runs on the example instances\<close>

lemmas search_defs =
  backtrack.simps select_unassigned_variable_def min_by_key_def sorted_values_def
  least_constraining_value_def commit_def undo_def forward_checking_def
  consistent_on_route_def is_consistent_def routed_def demands_def validate_time_windows_def
  dist_def index_def assigned_def Let_def enumerate_eq_zip

lemma reset_routes: "reset (s\<lparr>routes := R\<rparr>) k = reset s k"
  by (simp add: reset_def variables_def num_customers_def)

lemma reset_domains_routes: "reset (s\<lparr>domains := D, routes := R\<rparr>) k = reset s k"
  by (simp add: reset_def variables_def num_customers_def)

lemma reset_reset: "reset (reset s j) k = reset s k"
  by (simp add: reset_def variables_def num_customers_def)

lemma two_tens_feasible_alone:
  "\<forall>x\<in>set (variables (init two_tens 15 2)). feasible_alone (init two_tens 15 2) x"
  unfolding two_tens_variables by (simp add: feasible_alone_def example_defs)

lemma two_tens_arc_consistency:
  "1 \<le> k \<Longrightarrow>
   arc_consistency (reset (init two_tens 15 2) k) = Some (True, reset (init two_tens 15 2) k)"
  using arc_consistency_reset_cases[of k "init two_tens 15 2"] two_tens_feasible_alone by auto

lemma two_tens_backtrack_1:
  "backtrack (reset (init two_tens 15 2) (Suc 0)) =
     Some (None, (reset (init two_tens 15 2) (Suc 0))\<lparr>routes := [(0, [1])]\<rparr>)"
  by (simp add: search_defs example_defs upt_rec)

lemma two_tens_backtrack_2:
  "backtrack (reset (init two_tens 15 2) 2) =
     Some (Some [(0, [1]), (1, [2])],
           (init two_tens 15 2)\<lparr>domains := [(1, [0, 1]), (2, [1])],
                                  routes := [(0, [1]), (1, [2])],
                                  assignments := [(1, 0), (2, 1)]\<rparr>)"
  by (simp add: search_defs example_defs upt_rec)

lemma two_tens_solve:
  "solve (init two_tens 15 2) =
     Some (Some [(0, [1]), (1, [2])],
           (init two_tens 15 2)\<lparr>domains := [(1, [0, 1]), (2, [1])],
                                  routes := [(0, [1]), (1, [2])],
                                  assignments := [(1, 0), (2, 1)]\<rparr>)"
proof -
  have range: "[1..<num_vehicles (init two_tens 15 2) + 1] = [1, 2]"
    by (simp add: init_def upt_rec)
  show ?thesis
    unfolding solve_def range solve_loop.simps Let_def backtracking_search_def
    by (simp add: two_tens_arc_consistency two_tens_backtrack_1 two_tens_backtrack_2
          reset_reset reset_routes)
qed

theorem solve_solution_route_invariant_witness:
  "solve (init two_tens 15 2) =
     Some (Some [(0, [1]), (1, [2])],
           (init two_tens 15 2)\<lparr>domains := [(1, [0, 1]), (2, [1])],
                                  routes := [(0, [1]), (1, [2])],
                                  assignments := [(1, 0), (2, 1)]\<rparr>)
   \<and> route_invariant (init two_tens 15 2) [(0, [1]), (1, [2])]"
  using solve_solution_route_invariant[OF two_tens_solve] two_tens_solve by simp

theorem solve_tries_caps_in_order_witness:
  "(\<exists>s'. solve (init two_tens 15 2) = Some (Some [(0, [1]), (1, [2])], s'))
   \<and> attempt (init two_tens 15 2) 2 = Some (Some [(0, [1]), (1, [2])])
   \<and> attempt (init two_tens 15 2) 1 = Some None"
proof -
  let ?s = "init two_tens 15 2"
  from solve_tries_caps_in_order[of ?s] two_tens_solve
  obtain k where k: "1 \<le> k" "map fst [(0::nat, [1::nat]), (1, [2])] = [0..<k]"
    "attempt ?s k = Some (Some [(0, [1]), (1, [2])])"
    "\<forall>j. 1 \<le> j \<and> j < k \<longrightarrow> attempt ?s j = Some None"
    by auto
  from k(2) have "length [0..<k] = 2" by (metis length_map length_Cons list.size(3) numeral_2_eq_2)
  then have k2: "k = 2" by simp
  with k(4) have "attempt ?s 1 = Some None" by simp
  with k(3) k2 two_tens_solve show ?thesis by simp
qed

subsection \<open>The undo step of the search\<close>

text \<open>
  Three customers of demand 10, capacity 15, two vehicles. At the root the search
  commits customer 1 to vehicle 0; below, customer 2 goes to vehicle 1 and forward
  checking then fails for customer 3. Both commitments are undone with the snapshot
  \<^verbatim>\<open>previous_routes\<close>, which \<^verbatim>\<open>_backtrack\<close> takes after the append.
\<close>

definition three_tens :: "customer list" where
  "three_tens = [the_depot, mk_customer 1 0 0 10 0 1000 0, mk_customer 2 0 0 10 0 1000 0,
                 mk_customer 3 0 0 10 0 1000 0]"

definition three_tens_start :: csp where
  "three_tens_start = reset (init three_tens 15 2) 2"

definition three_tens_after :: csp where
  "three_tens_after =
     three_tens_start\<lparr>domains := [(1, [0, 1]), (2, [1]), (3, [1])],
                      routes := [(0, [1]), (1, [])]\<rparr>"

text \<open>
  C1 on the code. Before customer 1 is tried both routes are empty and vehicle 1 is a
  feasible candidate for it. After the candidate vehicle 0 has failed, the loop over the
  candidates \<open>[0, 1]\<close> ends with customer 1 unassigned but still in the route of
  vehicle 0, and for that reason alone the sibling candidate, vehicle 1, is rejected: the
  routes table is not restored to its state before the append.
\<close>

theorem undo_leaves_variable_in_route:
  "routes three_tens_start = [(0, []), (1, [])]
   \<and> sorted_values three_tens_start 1 = Some [0, 1]
   \<and> consistent_on_route three_tens_start 1 1 = Some True
   \<and> try_values three_tens_start 1 [0, 1] = Some (None, three_tens_after)
   \<and> routes three_tens_after = [(0, [1]), (1, [])]
   \<and> assignments three_tens_after = []
   \<and> consistent_on_route three_tens_after 1 1 = Some False"
  by (simp add: three_tens_after_def three_tens_start_def three_tens_def search_defs
        example_defs upt_rec)

subsection \<open>Exhaustiveness of the search\<close>

text \<open>
  Four customers of demands 2, 2, 3, 3, capacity 5, two vehicles. \<open>assign_all\<close>
  commits a list of (customer, vehicle) pairs one after the other, each after the
  feasibility check the search makes.
\<close>

definition four_customers :: "customer list" where
  "four_customers =
     [the_depot, mk_customer 1 0 0 2 0 1000 0, mk_customer 2 0 0 2 0 1000 0,
      mk_customer 3 0 0 3 0 1000 0, mk_customer 4 0 0 3 0 1000 0]"

definition four_start :: csp where
  "four_start = reset (init four_customers 5 2) 2"

fun assign_all :: "csp \<Rightarrow> (nat \<times> nat) list \<Rightarrow> csp option" where
  "assign_all s [] = Some s"
| "assign_all s ((variable, val) # rest) = do {
     ok \<leftarrow> consistent_on_route s variable val;
     if ok then do { s1 \<leftarrow> commit s variable val; assign_all s1 rest } else None
   }"

lemma four_variables: "variables (init four_customers 5 2) = [1, 2, 3, 4]"
  by (simp add: four_customers_def example_defs upt_rec)

lemma four_arc_consistency: "arc_consistency four_start = Some (True, four_start)"
proof -
  have "\<forall>x\<in>set (variables (init four_customers 5 2)). feasible_alone (init four_customers 5 2) x"
    unfolding four_variables by (simp add: feasible_alone_def four_customers_def example_defs)
  then show ?thesis
    unfolding four_start_def
    using arc_consistency_reset_cases[of 2 "init four_customers 5 2"] by auto
qed

text \<open>
  C2 on the code. With cap 2 the tables pass arc consistency, and the complete assignment
  of customers 1 and 3 to vehicle 0 and of 2 and 4 to vehicle 1 passes every feasibility
  check; yet \<^verbatim>\<open>backtracking_search\<close> returns failure. It tries customer 2 on vehicle 0
  only: after that branch has failed, customer 2 is still in the route of vehicle 0 and
  vehicle 1 is rejected, and the domains pruned in the failed branch stay pruned.
\<close>

theorem search_misses_feasible_assignment:
  "arc_consistency four_start = Some (True, four_start)
   \<and> assign_all four_start [(1, 0), (2, 1), (3, 0), (4, 1)] =
       Some (four_start\<lparr>routes := [(0, [1, 3]), (1, [2, 4])],
                        assignments := [(1, 0), (2, 1), (3, 0), (4, 1)]\<rparr>)
   \<and> backtracking_search four_start =
       Some (None, four_start\<lparr>domains := [(1, [0, 1]), (2, [0, 1]), (3, [1]), (4, [1])],
                               routes := [(0, [1]), (1, [])]\<rparr>)"
  using four_arc_consistency
  by (simp add: four_start_def four_customers_def backtracking_search_def search_defs
        example_defs upt_rec)

end
